theory Spec2Isabelle
  imports Main "HOL-Library.Stream" "HOL-Library.Signed_Division"
begin

section \<open>Console Snake: the game state of \<open>Snake.cpp\<close>\<close>

text \<open>
  The development embeds class \<open>Game\<close> of \<open>src/Snake.cpp\<close>: its fields as a record, its
  member functions \<open>reset\<close>, \<open>handleInput\<close>, \<open>step\<close>, \<open>hitWall\<close>, \<open>hitSelf\<close>,
  \<open>isOpposite\<close> and \<open>spawnFood\<close> as functions that take the state and return the new one.

  \<^item> C++ \<open>int\<close> is modelled by \<open>int\<close>. Signed overflow is undefined behaviour in C++, so
    there is no wrap-around to write out. The two updates of \<open>step\<close> that can leave the
    range of a 32-bit \<open>int\<close> from a state inside it, \<open>score_ += 10\<close> and
    \<open>tickMs_ - 2\<close>, are the fault \<open>SignedOverflow\<close> there. Lemma
    \<open>reachable_main_int_range\<close> below shows that no value of a state reachable in the
    program (\<open>Game game(50, 22)\<close>) leaves a small range, so the arithmetic of the model and
    of the machine agree there.
  \<^item> Undefined behaviour of the library calls the code makes (\<open>front()\<close> of an empty deque,
    a \<open>uniform_int_distribution\<close> with \<open>lo > hi\<close>, an index outside a string or vector)
    and the exception of a container constructed with a negative size are values of type
    \<open>fault\<close>.
  \<^item> The loop of \<open>spawnFood\<close> has no bound on its retries. It is a partial function in the
    option monad: \<open>None\<close> is "does not return".
  \<^item> The fields \<open>input_\<close> and \<open>render_\<close> hold terminal settings and a copy of the grid size;
    no member function modelled here reads them. The key that \<open>pollKey\<close> returns is the
    argument of \<open>handleInput\<close>.
  \<^item> The fields of \<open>Game\<close> keep their names without the trailing underscore
    (\<open>snake\<close> for \<open>snake_\<close>), which a constant's name cannot end in. \<open>x\<close>, \<open>y\<close>, \<open>w\<close>
    and \<open>h\<close> are therefore field selectors throughout, never variables.
\<close>

subsection \<open>Data\<close>

record Vec2 =
  x :: int
  y :: int

datatype Dir = Up | Down | Left | Right

datatype fault =
    EmptyDeque    \<comment> \<open>\<open>snake_.front()\<close> on an empty deque\<close>
  | EmptyRange    \<comment> \<open>\<open>uniform_int_distribution<int>(lo, hi)\<close> with \<open>hi < lo\<close>\<close>
  | LengthError   \<comment> \<open>a string or vector constructed with a negative count\<close>
  | OutOfBounds   \<comment> \<open>\<open>operator[]\<close> with an index outside the container\<close>
  | SignedOverflow \<comment> \<open>\<open>score_ += 10\<close> or \<open>tickMs_ - 2\<close> outside the range of \<open>int\<close>\<close>

text \<open>
  Class \<open>Random\<close> wraps \<open>std::mt19937\<close>, seeded from \<open>std::random_device\<close>, and a
  \<open>std::uniform_int_distribution\<close>; both are library code. The generator is the infinite
  sequence of raw draws it will deliver, and \<open>nextInt lo hi\<close> maps the next draw into
  \<open>lo..hi\<close>. Every sequence of results that the contract of \<open>nextInt\<close> allows is the
  result of some sequence of draws.
\<close>

type_synonym Random = "nat stream"

definition nextInt :: "Random \<Rightarrow> int \<Rightarrow> int \<Rightarrow> fault + (int \<times> Random)" where
  "nextInt rng lo hi =
     (if hi < lo then Inl EmptyRange
      else Inr (lo + int (shd rng mod nat (hi - lo + 1)), stl rng))"

record Game =
  w :: int
  h :: int
  rnd :: Random
  snake :: "Vec2 list"
  food :: Vec2
  dir :: Dir
  quit :: bool
  gameOver :: bool
  score :: int
  tickMs :: int

subsection \<open>Operations\<close>

text \<open>\<open>Vec2::operator==\<close> compares both coordinates.\<close>

definition Vec2_eq :: "Vec2 \<Rightarrow> Vec2 \<Rightarrow> bool" where
  "Vec2_eq a b \<longleftrightarrow> x a = x b \<and> y a = y b"

definition hitWall :: "Game \<Rightarrow> Vec2 \<Rightarrow> bool" where
  "hitWall g p \<longleftrightarrow> x p \<le> 0 \<or> x p \<ge> w g - 1 \<or> y p \<le> 0 \<or> y p \<ge> h g - 1"

text \<open>The loop of \<open>hitSelf\<close> over the indices of the deque, front to back.\<close>

fun hitSelf_loop :: "Vec2 list \<Rightarrow> Vec2 \<Rightarrow> bool" where
  "hitSelf_loop [] p = False"
| "hitSelf_loop (s # ss) p = (if Vec2_eq s p then True else hitSelf_loop ss p)"

definition hitSelf :: "Game \<Rightarrow> Vec2 \<Rightarrow> bool" where
  "hitSelf g p = hitSelf_loop (snake g) p"

definition isOpposite :: "Dir \<Rightarrow> Dir \<Rightarrow> bool" where
  "isOpposite a b =
     (if a = Up \<and> b = Down then True
      else if a = Down \<and> b = Up then True
      else if a = Left \<and> b = Right then True
      else if a = Right \<and> b = Left then True
      else False)"

text \<open>
  The inner loop of \<open>spawnFood\<close>: it visits every segment and clears \<open>ok\<close> at each one
  that equals the candidate; it does not leave the loop early.
\<close>

fun spawnFood_scan :: "Vec2 list \<Rightarrow> Vec2 \<Rightarrow> bool \<Rightarrow> bool" where
  "spawnFood_scan [] p ok = ok"
| "spawnFood_scan (s # ss) p ok = spawnFood_scan ss p (if Vec2_eq s p then False else ok)"

text \<open>
  \<open>spawnFood\<close>: one unfolding is one pass of \<open>while (!ok)\<close>, which draws the two
  coordinates, scans the snake, and either assigns \<open>food_\<close> or goes round again with the
  generator advanced.
\<close>

partial_function (option) spawnFood :: "Game \<Rightarrow> (fault + Game) option" where
  "spawnFood g =
     (case nextInt (rnd g) 1 (w g - 2) of
        Inl e \<Rightarrow> Some (Inl e)
      | Inr (px, r1) \<Rightarrow>
          (case nextInt r1 1 (h g - 2) of
             Inl e \<Rightarrow> Some (Inl e)
           | Inr (py, r2) \<Rightarrow>
               (if spawnFood_scan (snake g) \<lparr>x = px, y = py\<rparr> True
                then Some (Inr (g\<lparr>rnd := r2, food := \<lparr>x = px, y = py\<rparr>\<rparr>))
                else spawnFood (g\<lparr>rnd := r2\<rparr>))))"

declare spawnFood.simps [code]

text \<open>\<open>w_ / 2\<close> is C++ integer division, which truncates: \<open>sdiv\<close>.\<close>

definition reset :: "Game \<Rightarrow> (fault + Game) option" where
  "reset g =
     spawnFood (g\<lparr>snake :=
                    [\<lparr>x = w g sdiv 2, y = h g sdiv 2\<rparr>,
                     \<lparr>x = w g sdiv 2 - 1, y = h g sdiv 2\<rparr>,
                     \<lparr>x = w g sdiv 2 - 2, y = h g sdiv 2\<rparr>],
                  dir := Right, quit := False, gameOver := False,
                  score := 0, tickMs := 110\<rparr>)"

text \<open>
  The constructor \<open>Game(w, h)\<close>: the member initialisers and the default member values,
  then \<open>reset()\<close>. The seed of the generator is its argument \<open>rng\<close>.
\<close>

definition Game_new :: "int \<Rightarrow> int \<Rightarrow> Random \<Rightarrow> (fault + Game) option" where
  "Game_new W H rng =
     reset \<lparr>w = W, h = H, rnd = rng, snake = [], food = \<lparr>x = 0, y = 0\<rparr>,
            dir = Right, quit = False, gameOver = False, score = 0, tickMs = 110\<rparr>"

text \<open>
  The direction \<open>next\<close> that \<open>handleInput\<close> computes from the key: it starts as the
  current direction and each of the four tests may overwrite it.
\<close>

definition handleInput_next :: "char \<Rightarrow> Dir \<Rightarrow> Dir" where
  "handleInput_next c d =
     (let next = d;
          next = (if c = CHR ''w'' \<or> c = CHR ''W'' then Up else next);
          next = (if c = CHR ''s'' \<or> c = CHR ''S'' then Down else next);
          next = (if c = CHR ''a'' \<or> c = CHR ''A'' then Left else next);
          next = (if c = CHR ''d'' \<or> c = CHR ''D'' then Right else next)
      in next)"

text \<open>\<open>handleInput\<close>, with the key \<open>c\<close> that \<open>input_.pollKey()\<close> returned (0 for none).\<close>

definition handleInput :: "char \<Rightarrow> Game \<Rightarrow> (fault + Game) option" where
  "handleInput c g =
     (if c = CHR 0x00 then Some (Inr g)
      else if c = CHR ''q'' \<or> c = CHR ''Q'' then Some (Inr (g\<lparr>quit := True\<rparr>))
      else if (c = CHR ''r'' \<or> c = CHR ''R'') \<and> gameOver g then reset g
      else
        let next = handleInput_next c (dir g)
        in if \<not> isOpposite (dir g) next then Some (Inr (g\<lparr>dir := next\<rparr>))
           else Some (Inr g))"

text \<open>The head that \<open>step\<close> computes before it tests for a collision.\<close>

definition step_next :: "Dir \<Rightarrow> Vec2 \<Rightarrow> Vec2" where
  "step_next d head =
     (let next = head;
          next = (if d = Up then next\<lparr>y := y next - 1\<rparr> else next);
          next = (if d = Down then next\<lparr>y := y next + 1\<rparr> else next);
          next = (if d = Left then next\<lparr>x := x next - 1\<rparr> else next);
          next = (if d = Right then next\<lparr>x := x next + 1\<rparr> else next)
      in next)"

text \<open>The largest and the smallest value of a 32-bit \<open>int\<close>.\<close>

definition INT_MAX :: int where
  "INT_MAX = 2147483647"

definition INT_MIN :: int where
  "INT_MIN = - 2147483648"

text \<open>
  \<open>step\<close>. \<open>push_front\<close> is \<open>#\<close>, \<open>pop_back\<close> is \<open>butlast\<close> (the deque is not empty
  there: the head has just been pushed). Where \<open>score_ += 10\<close> or \<open>tickMs_ - 2\<close> would
  leave the range of \<open>int\<close>, the behaviour of the code is undefined.
\<close>

definition step :: "Game \<Rightarrow> (fault + Game) option" where
  "step g =
     (if gameOver g then Some (Inr g)
      else case snake g of
        [] \<Rightarrow> Some (Inl EmptyDeque)
      | head # _ \<Rightarrow>
          let next = step_next (dir g) head in
          if hitWall g next \<or> hitSelf g next then Some (Inr (g\<lparr>gameOver := True\<rparr>))
          else
            let g1 = g\<lparr>snake := next # snake g\<rparr> in
            if Vec2_eq next (food g1)
            then
              if INT_MAX < score g1 + 10 \<or> tickMs g1 - 2 < INT_MIN
              then Some (Inl SignedOverflow)
              else spawnFood (g1\<lparr>score := score g1 + 10,
                                 tickMs := max 55 (tickMs g1 - 2)\<rparr>)
            else Some (Inr (g1\<lparr>snake := butlast (snake g1)\<rparr>)))"

subsection \<open>The frame buffer\<close>

text \<open>
  \<open>buildBuffer\<close> makes \<open>h_\<close> rows of \<open>w_\<close> blanks and then assigns single characters
  \<open>buf[row][col] = ch\<close>. A row or column outside the buffer is undefined behaviour in
  C++; here \<open>put\<close> returns \<open>OutOfBounds\<close>, and the writes stop at the first fault.
\<close>

type_synonym buffer = "string list"

type_synonym buf_write = "int \<times> int \<times> char"

definition put :: "buffer \<Rightarrow> int \<Rightarrow> int \<Rightarrow> char \<Rightarrow> fault + buffer" where
  "put buf row col ch =
     (if 0 \<le> row \<and> row < int (length buf) \<and> 0 \<le> col \<and> col < int (length (buf ! nat row))
      then Inr (buf[nat row := (buf ! nat row)[nat col := ch]])
      else Inl OutOfBounds)"

fun put_all :: "buffer \<Rightarrow> buf_write list \<Rightarrow> fault + buffer" where
  "put_all buf [] = Inr buf"
| "put_all buf ((row, col, ch) # ws) =
     (case put buf row col ch of Inl e \<Rightarrow> Inl e | Inr buf' \<Rightarrow> put_all buf' ws)"

text \<open>
  The writes of each part of \<open>buildBuffer\<close>, in the order the code makes them: the two
  border loops, the food, the snake (\<open>O\<close> for index 0, \<open>o\<close> for the rest), the score line
  (while \<open>i < hud.size() && i + 2 < w_\<close>) and, when the game is over, the message (while
  \<open>i < msg.size() && start + i < w_ - 1\<close>).
\<close>

definition border_rows :: "Game \<Rightarrow> buf_write list" where
  "border_rows g = concat (map (\<lambda>c. [(0, c, CHR ''#''), (h g - 1, c, CHR ''#'')]) [0..w g - 1])"

definition border_cols :: "Game \<Rightarrow> buf_write list" where
  "border_cols g = concat (map (\<lambda>r. [(r, 0, CHR ''#''), (r, w g - 1, CHR ''#'')]) [0..h g - 1])"

definition food_writes :: "Game \<Rightarrow> buf_write list" where
  "food_writes g = [(y (food g), x (food g), CHR ''*'')]"

definition snake_writes :: "Game \<Rightarrow> buf_write list" where
  "snake_writes g =
     map (\<lambda>(i, p). (y p, x p, if i = 0 then CHR ''O'' else CHR ''o''))
       (enumerate 0 (snake g))"

text \<open>\<open>std::to_string\<close> of an \<open>int\<close>: the decimal digits, after a minus sign if negative.\<close>

function to_digits :: "nat \<Rightarrow> string" where
  "to_digits n =
     (if n < 10 then [char_of (48 + n)]
      else to_digits (n div 10) @ [char_of (48 + n mod 10)])"
  by pat_completeness auto
termination
  by (relation "measure id") auto

declare to_digits.simps [simp del]

definition to_string :: "int \<Rightarrow> string" where
  "to_string i = (if i < 0 then CHR ''-'' # to_digits (nat (- i)) else to_digits (nat i))"

definition hud_writes :: "Game \<Rightarrow> buf_write list" where
  "hud_writes g =
     (let hud = ''Score: '' @ to_string (score g) @ ''   WASD=move  Q=quit''
      in map (\<lambda>i. (0, int i + 2, hud ! i))
           (takeWhile (\<lambda>i. int i + 2 < w g) [0..<length hud]))"

definition msg_writes :: "Game \<Rightarrow> buf_write list" where
  "msg_writes g =
     (let msg = ''GAME OVER  (R=restart, Q=quit)'';
          start = max 1 ((w g - int (length msg)) sdiv 2);
          row = h g sdiv 2
      in map (\<lambda>i. (row, start + int i, msg ! i))
           (takeWhile (\<lambda>i. start + int i < w g - 1) [0..<length msg]))"

definition buildBuffer :: "Game \<Rightarrow> fault + buffer" where
  "buildBuffer g =
     (if w g < 0 \<or> h g < 0 then Inl LengthError
      else put_all (replicate (nat (h g)) (replicate (nat (w g)) CHR '' ''))
             (border_rows g @ border_cols g @ food_writes g @ snake_writes g @ hud_writes g
              @ (if gameOver g then msg_writes g else [])))"

subsection \<open>The states the program can be in\<close>

text \<open>
  \<open>run\<close> constructs nothing and only calls \<open>handleInput\<close>, \<open>step\<close> and \<open>drawFrame\<close>
  (which is \<open>const\<close>) in a loop, so every state it sees is reached from the constructor's
  state by calls of \<open>handleInput\<close> and \<open>step\<close> that return.
\<close>

inductive reachable :: "int \<Rightarrow> int \<Rightarrow> Game \<Rightarrow> bool" for W H :: int where
  init: "Game_new W H rng = Some (Inr g) \<Longrightarrow> reachable W H g"
| input: "reachable W H g \<Longrightarrow> handleInput c g = Some (Inr g') \<Longrightarrow> reachable W H g'"
| tick: "reachable W H g \<Longrightarrow> step g = Some (Inr g') \<Longrightarrow> reachable W H g'"

subsection \<open>Vocabulary of the specification\<close>

text \<open>
  The interior of the grid: the cells off the one-cell border, \<open>1 \<le> x \<le> w - 2\<close> and
  \<open>1 \<le> y \<le> h - 2\<close>.
\<close>

definition interior :: "Game \<Rightarrow> Vec2 \<Rightarrow> bool" where
  "interior g p \<longleftrightarrow> 1 \<le> x p \<and> x p \<le> w g - 2 \<and> 1 \<le> y p \<and> y p \<le> h g - 2"


text \<open>A write lands inside the \<open>h\<close> by \<open>w\<close> buffer.\<close>

definition in_buffer :: "Game \<Rightarrow> buf_write \<Rightarrow> bool" where
  "in_buffer g wr \<longleftrightarrow>
     (case wr of (row, col, ch) \<Rightarrow> 0 \<le> row \<and> row < h g \<and> 0 \<le> col \<and> col < w g)"

text \<open>A buffer of \<open>R\<close> rows that all have \<open>C\<close> columns.\<close>

definition buffer_dims :: "nat \<Rightarrow> nat \<Rightarrow> buffer \<Rightarrow> bool" where
  "buffer_dims R C buf \<longleftrightarrow> length buf = R \<and> list_all (\<lambda>row. length row = C) buf"

text \<open>All the writes of \<open>buildBuffer\<close>, in order.\<close>

definition all_writes :: "Game \<Rightarrow> buf_write list" where
  "all_writes g =
     border_rows g @ border_cols g @ food_writes g @ snake_writes g @ hud_writes g
     @ (if gameOver g then msg_writes g else [])"

text \<open>A write lands inside a buffer of \<open>R\<close> rows and \<open>C\<close> columns.\<close>

definition in_dims :: "nat \<Rightarrow> nat \<Rightarrow> buf_write \<Rightarrow> bool" where
  "in_dims R C wr \<longleftrightarrow>
     (case wr of (row, col, ch) \<Rightarrow> 0 \<le> row \<and> row < int R \<and> 0 \<le> col \<and> col < int C)"

text \<open>The food and every segment of the snake are strictly inside the walls.\<close>

definition inside_walls :: "Game \<Rightarrow> bool" where
  "inside_walls g \<longleftrightarrow> list_all (interior g) (food g # snake g)"

text \<open>
  The unit offset of a direction. The rows of the buffer are printed top to bottom
  (\<open>Renderer::draw\<close>), so up is towards row 0; right is towards the higher columns, as in
  the example of the specification.
\<close>

fun offset :: "Dir \<Rightarrow> int \<times> int" where
  "offset Up = (0, - 1)"
| "offset Down = (0, 1)"
| "offset Left = (- 1, 0)"
| "offset Right = (1, 0)"

text \<open>The next head: the current head plus the unit offset of the direction.\<close>

definition advance :: "Dir \<Rightarrow> Vec2 \<Rightarrow> Vec2" where
  "advance d p = \<lparr>x = x p + fst (offset d), y = y p + snd (offset d)\<rparr>"

text \<open>The exact opposite of a direction.\<close>

fun opposite :: "Dir \<Rightarrow> Dir" where
  "opposite Up = Down"
| "opposite Down = Up"
| "opposite Left = Right"
| "opposite Right = Left"

text \<open>The direction keys, as a table: w/a/s/d in either case.\<close>

definition key_dir :: "char \<Rightarrow> Dir option" where
  "key_dir c =
     (if c = CHR ''w'' \<or> c = CHR ''W'' then Some Up
      else if c = CHR ''s'' \<or> c = CHR ''S'' then Some Down
      else if c = CHR ''a'' \<or> c = CHR ''A'' then Some Left
      else if c = CHR ''d'' \<or> c = CHR ''D'' then Some Right
      else None)"

text \<open>
  The initial body on a grid \<open>W\<close> by \<open>H\<close>: the head at \<open>(W / 2, H / 2)\<close> and two
  segments to its left.
\<close>

definition initial_snake :: "int \<Rightarrow> int \<Rightarrow> Vec2 list" where
  "initial_snake W H =
     [\<lparr>x = W sdiv 2, y = H sdiv 2\<rparr>,
      \<lparr>x = W sdiv 2 - 1, y = H sdiv 2\<rparr>,
      \<lparr>x = W sdiv 2 - 2, y = H sdiv 2\<rparr>]"

text \<open>
  The cell that one pass of the loop of \<open>spawnFood\<close> draws from generator \<open>r\<close> on a grid
  \<open>W\<close> by \<open>H\<close> with an interior: the results of \<open>nextInt(1, W - 2)\<close> and
  \<open>nextInt(1, H - 2)\<close>.
\<close>

definition candidate :: "int \<Rightarrow> int \<Rightarrow> Random \<Rightarrow> Vec2" where
  "candidate W H r =
     \<lparr>x = 1 + int (shd r mod nat (W - 2)), y = 1 + int (shd (stl r) mod nat (H - 2))\<rparr>"

text \<open>
  What a result of \<open>spawnFood\<close> satisfies: a fault needs a grid without interior; a
  returned state differs from the old one in the generator and the food only, and the food
  is a free interior cell.
\<close>

definition spawnFood_post :: "Game \<Rightarrow> fault + Game \<Rightarrow> bool" where
  "spawnFood_post g res =
     (case res of
        Inl e \<Rightarrow> w g < 3 \<or> h g < 3
      | Inr g' \<Rightarrow> g' = g\<lparr>rnd := rnd g', food := food g'\<rparr> \<and> interior g (food g')
                 \<and> food g' \<notin> set (snake g))"

text \<open>
  The state of the examples: grid 50 by 22, the snake at \<open>(25,11), (24,11), (23,11)\<close>
  heading right, score 0, tick interval 110, food at \<open>f\<close>, and a generator whose draws are
  all 0 (so that \<open>spawnFood\<close> draws the cell \<open>(1,1)\<close>).
\<close>

definition example_state :: "Vec2 \<Rightarrow> Game" where
  "example_state f =
     \<lparr>w = 50, h = 22, rnd = sconst 0,
      snake = [\<lparr>x = 25, y = 11\<rparr>, \<lparr>x = 24, y = 11\<rparr>, \<lparr>x = 23, y = 11\<rparr>],
      food = f, dir = Right, quit = False, gameOver = False, score = 0, tickMs = 110\<rparr>"

text \<open>
  A full board on the program's grid: the body fills the interior of the 50 by 22 grid but
  for the cell \<open>(1,1)\<close>, where the food is. It runs from the head at \<open>(2,1)\<close> to the right
  end of row 1 and then back and forth through rows 2 to 20, each segment next to the one
  before; the head is heading left, towards the food. Score and tick interval are those
  of a game that has eaten 956 times.
\<close>

definition full_board_snake :: "Vec2 list" where
  "full_board_snake =
     map (\<lambda>c. \<lparr>x = c, y = 1\<rparr>) [2..48]
     @ concat (map (\<lambda>r. if even r then rev (map (\<lambda>c. \<lparr>x = c, y = r\<rparr>) [1..48])
                          else map (\<lambda>c. \<lparr>x = c, y = r\<rparr>) [1..48]) [2..20])"

definition full_board :: Game where
  "full_board =
     \<lparr>w = 50, h = 22, rnd = sconst 0, snake = full_board_snake, food = \<lparr>x = 1, y = 1\<rparr>,
      dir = Left, quit = False, gameOver = False, score = 9560, tickMs = 55\<rparr>"

section \<open>Basic facts\<close>

subsection \<open>The loops over the snake, and \<open>nextInt\<close>\<close>

lemma Vec2_eq_iff: "Vec2_eq a b \<longleftrightarrow> a = b"
  by (auto simp add: Vec2_eq_def)

lemma hitSelf_loop_iff: "hitSelf_loop ss p \<longleftrightarrow> p \<in> set ss"
  by (induction ss) (auto simp: Vec2_eq_iff)

lemma hitSelf_iff: "hitSelf g p \<longleftrightarrow> p \<in> set (snake g)"
  by (simp add: hitSelf_def hitSelf_loop_iff)

lemma spawnFood_scan_iff: "spawnFood_scan ss p ok \<longleftrightarrow> ok \<and> p \<notin> set ss"
  by (induction ss arbitrary: ok) (auto simp: Vec2_eq_iff)

lemma hitWall_iff: "hitWall g p \<longleftrightarrow> \<not> interior g p"
  by (auto simp: hitWall_def interior_def)

lemma nextInt_Inl: "nextInt r lo hi = Inl e \<longleftrightarrow> hi < lo \<and> e = EmptyRange"
  by (auto simp: nextInt_def)

lemma nextInt_Inr:
  "nextInt r lo hi = Inr (v, r') \<longleftrightarrow>
     lo \<le> hi \<and> v = lo + int (shd r mod nat (hi - lo + 1)) \<and> r' = stl r"
  by (auto simp: nextInt_def)

lemma nextInt_range:
  assumes "nextInt r lo hi = Inr (v, r')"
  shows "lo \<le> v \<and> v \<le> hi"
proof -
  from assms have le: "lo \<le> hi" and v: "v = lo + int (shd r mod nat (hi - lo + 1))"
    by (simp_all add: nextInt_Inr)
  from le have "0 < nat (hi - lo + 1)" by simp
  then have "shd r mod nat (hi - lo + 1) < nat (hi - lo + 1)" by (rule mod_less_divisor)
  then have "int (shd r mod nat (hi - lo + 1)) < hi - lo + 1" by linarith
  with v show ?thesis by simp
qed

text \<open>One pass of the loop of \<open>spawnFood\<close>, when the grid has an interior.\<close>

lemma spawnFood_pass:
  assumes "3 \<le> w g" "3 \<le> h g"
  shows "spawnFood g =
     (if candidate (w g) (h g) (rnd g) \<notin> set (snake g)
      then Some (Inr (g\<lparr>rnd := stl (stl (rnd g)), food := candidate (w g) (h g) (rnd g)\<rparr>))
      else spawnFood (g\<lparr>rnd := stl (stl (rnd g))\<rparr>))"
  using assms
  by (subst spawnFood.simps) (simp add: nextInt_def candidate_def spawnFood_scan_iff)

lemma candidate_interior:
  assumes "3 \<le> w g" "3 \<le> h g"
  shows "interior g (candidate (w g) (h g) r)"
proof -
  have "0 < nat (w g - 2)" "0 < nat (h g - 2)" using assms by simp_all
  then have "shd r mod nat (w g - 2) < nat (w g - 2)"
    "shd (stl r) mod nat (h g - 2) < nat (h g - 2)" by simp_all
  then have "int (shd r mod nat (w g - 2)) < w g - 2"
    "int (shd (stl r) mod nat (h g - 2)) < h g - 2" by linarith+
  then show ?thesis by (simp add: interior_def candidate_def)
qed

subsection \<open>The retry loop of \<open>spawnFood\<close>\<close>

lemma spawnFood_post_rnd: "spawnFood_post (g\<lparr>rnd := r\<rparr>) res = spawnFood_post g res"
  by (simp add: spawnFood_post_def interior_def split: sum.splits)

lemma spawnFood_result:
  assumes "spawnFood g0 = Some res0"
  shows "spawnFood_post g0 res0"
proof (rule spawnFood.raw_induct[where P = spawnFood_post, OF _ assms])
  fix sf g res
  assume IH: "\<And>g' res'. sf g' = Some res' \<Longrightarrow> spawnFood_post g' res'"
    and body: "(case nextInt (rnd g) 1 (w g - 2) of
        Inl e \<Rightarrow> Some (Inl e)
      | Inr (px, r1) \<Rightarrow>
          (case nextInt r1 1 (h g - 2) of
             Inl e \<Rightarrow> Some (Inl e)
           | Inr (py, r2) \<Rightarrow>
               (if spawnFood_scan (snake g) \<lparr>x = px, y = py\<rparr> True
                then Some (Inr (g\<lparr>rnd := r2, food := \<lparr>x = px, y = py\<rparr>\<rparr>))
                else sf (g\<lparr>rnd := r2\<rparr>)))) = Some res"
  show "spawnFood_post g res"
  proof (cases "nextInt (rnd g) 1 (w g - 2)")
    case (Inl e)
    with body show ?thesis
      by (auto simp: spawnFood_post_def nextInt_Inl)
  next
    case (Inr a)
    obtain px r1 where a: "a = (px, r1)" by (cases a)
    note nx = Inr[unfolded a]
    show ?thesis
    proof (cases "nextInt r1 1 (h g - 2)")
      case (Inl e)
      with body nx show ?thesis
        by (auto simp: spawnFood_post_def nextInt_Inl)
    next
      case (Inr b)
      obtain py r2 where b: "b = (py, r2)" by (cases b)
      note ny = Inr[unfolded b]
      show ?thesis
      proof (cases "spawnFood_scan (snake g) \<lparr>x = px, y = py\<rparr> True")
        case True
        with body nx ny have res: "res = Inr (g\<lparr>rnd := r2, food := \<lparr>x = px, y = py\<rparr>\<rparr>)"
          by simp
        from nextInt_range[OF nx] nextInt_range[OF ny]
        have "interior g \<lparr>x = px, y = py\<rparr>" by (simp add: interior_def)
        with True res show ?thesis
          by (auto simp: spawnFood_post_def spawnFood_scan_iff)
      next
        case False
        with body nx ny have "sf (g\<lparr>rnd := r2\<rparr>) = Some res" by simp
        then have "spawnFood_post (g\<lparr>rnd := r2\<rparr>) res" by (rule IH)
        then show ?thesis by (simp add: spawnFood_post_rnd)
      qed
    qed
  qed
qed

lemma spawnFood_Inr:
  assumes "spawnFood g = Some (Inr g')"
  shows "g' = g\<lparr>rnd := rnd g', food := food g'\<rparr>" "interior g (food g')"
    "food g' \<notin> set (snake g)"
  using spawnFood_result[OF assms] by (simp_all add: spawnFood_post_def)

lemma spawnFood_no_fault:
  "3 \<le> w g \<Longrightarrow> 3 \<le> h g \<Longrightarrow> spawnFood g \<noteq> Some (Inl e)"
  using spawnFood_result[of g "Inl e"] by (auto simp: spawnFood_post_def)

text \<open>The loop leaves as soon as a pass draws a free cell.\<close>

lemma spawnFood_returns:
  assumes "3 \<le> w g" "3 \<le> h g"
    and "candidate (w g) (h g) (sdrop (2 * k) (rnd g)) \<notin> set (snake g)"
  shows "\<exists>g'. spawnFood g = Some (Inr g')"
  using assms
proof (induction k arbitrary: g)
  case 0
  then show ?case by (subst spawnFood_pass) simp_all
next
  case (Suc k)
  show ?case
  proof (cases "candidate (w g) (h g) (rnd g) \<in> set (snake g)")
    case True
    have "\<exists>g'. spawnFood (g\<lparr>rnd := stl (stl (rnd g))\<rparr>) = Some (Inr g')"
      using Suc.prems by (intro Suc.IH) simp_all
    with True Suc.prems(1,2) show ?thesis by (subst spawnFood_pass) simp_all
  next
    case False
    with Suc.prems(1,2) show ?thesis by (subst spawnFood_pass) simp_all
  qed
qed

text \<open>If the snake covers the interior, the loop never leaves.\<close>

lemma spawnFood_diverges:
  assumes "3 \<le> w g" "3 \<le> h g" "\<forall>p. interior g p \<longrightarrow> p \<in> set (snake g)"
  shows "spawnFood g = None"
proof (cases "spawnFood g")
  case None then show ?thesis .
next
  case (Some res)
  from spawnFood_result[OF Some] assms show ?thesis
    by (auto simp: spawnFood_post_def split: sum.splits)
qed

text \<open>Conversely, a result of the loop needs a pass that draws a free cell.\<close>

lemma spawnFood_Some_free:
  assumes "spawnFood g0 = Some res0"
  shows "w g0 < 3 \<or> h g0 < 3
       \<or> (\<exists>k. candidate (w g0) (h g0) (sdrop (2 * k) (rnd g0)) \<notin> set (snake g0))"
proof (rule spawnFood.raw_induct
    [where P = "\<lambda>g res. w g < 3 \<or> h g < 3
       \<or> (\<exists>k. candidate (w g) (h g) (sdrop (2 * k) (rnd g)) \<notin> set (snake g))", OF _ assms])
  fix sf g res
  assume IH: "\<And>g' res'. sf g' = Some res' \<Longrightarrow> w g' < 3 \<or> h g' < 3
       \<or> (\<exists>k. candidate (w g') (h g') (sdrop (2 * k) (rnd g')) \<notin> set (snake g'))"
    and body: "(case nextInt (rnd g) 1 (w g - 2) of
        Inl e \<Rightarrow> Some (Inl e)
      | Inr (px, r1) \<Rightarrow>
          (case nextInt r1 1 (h g - 2) of
             Inl e \<Rightarrow> Some (Inl e)
           | Inr (py, r2) \<Rightarrow>
               (if spawnFood_scan (snake g) \<lparr>x = px, y = py\<rparr> True
                then Some (Inr (g\<lparr>rnd := r2, food := \<lparr>x = px, y = py\<rparr>\<rparr>))
                else sf (g\<lparr>rnd := r2\<rparr>)))) = Some res"
  show "w g < 3 \<or> h g < 3
       \<or> (\<exists>k. candidate (w g) (h g) (sdrop (2 * k) (rnd g)) \<notin> set (snake g))"
  proof (cases "3 \<le> w g \<and> 3 \<le> h g")
    case False
    then show ?thesis by auto
  next
    case True
    show ?thesis
    proof (cases "candidate (w g) (h g) (rnd g) \<in> set (snake g)")
      case False
      then have "candidate (w g) (h g) (sdrop (2 * 0) (rnd g)) \<notin> set (snake g)" by simp
      then show ?thesis by blast
    next
      case occ: True
      with body True have "sf (g\<lparr>rnd := stl (stl (rnd g))\<rparr>) = Some res"
        by (simp add: nextInt_def candidate_def spawnFood_scan_iff)
      from IH[OF this] True obtain k where
        "candidate (w g) (h g) (sdrop (2 * k) (stl (stl (rnd g)))) \<notin> set (snake g)"
        by auto
      then have "candidate (w g) (h g) (sdrop (2 * Suc k) (rnd g)) \<notin> set (snake g)"
        by simp
      then show ?thesis by blast
    qed
  qed
qed

lemma spawnFood_returns_iff:
  assumes "3 \<le> w g" "3 \<le> h g"
  shows "(\<exists>g'. spawnFood g = Some (Inr g')) \<longleftrightarrow>
         (\<exists>k. candidate (w g) (h g) (sdrop (2 * k) (rnd g)) \<notin> set (snake g))"
proof
  assume "\<exists>g'. spawnFood g = Some (Inr g')"
  then obtain g' where "spawnFood g = Some (Inr g')" ..
  from spawnFood_Some_free[OF this] assms
  show "\<exists>k. candidate (w g) (h g) (sdrop (2 * k) (rnd g)) \<notin> set (snake g)" by simp
next
  assume "\<exists>k. candidate (w g) (h g) (sdrop (2 * k) (rnd g)) \<notin> set (snake g)"
  then obtain k where "candidate (w g) (h g) (sdrop (2 * k) (rnd g)) \<notin> set (snake g)" ..
  with assms show "\<exists>g'. spawnFood g = Some (Inr g')" by (rule spawnFood_returns)
qed

subsection \<open>\<open>step\<close> and the keys\<close>

lemma step_next_simps:
  "step_next Up p = p\<lparr>y := y p - 1\<rparr>"
  "step_next Down p = p\<lparr>y := y p + 1\<rparr>"
  "step_next Left p = p\<lparr>x := x p - 1\<rparr>"
  "step_next Right p = p\<lparr>x := x p + 1\<rparr>"
  by (simp_all add: step_next_def)

text \<open>The head that \<open>step\<close> computes is the head plus the unit offset of the direction.\<close>

lemma step_next_advance: "step_next d p = advance d p"
  by (cases d) (simp_all add: step_next_def advance_def)

lemma isOpposite_iff: "isOpposite a b \<longleftrightarrow> b = opposite a"
  by (cases a; cases b) (simp_all add: isOpposite_def)

lemma step_playing:
  assumes "\<not> gameOver g" "snake g = head # rest"
  shows "step g =
    (let next = step_next (dir g) head in
     if \<not> interior g next \<or> next \<in> set (snake g) then Some (Inr (g\<lparr>gameOver := True\<rparr>))
     else if next = food g
       then
         if INT_MAX < score g + 10 \<or> tickMs g - 2 < INT_MIN then Some (Inl SignedOverflow)
         else spawnFood (g\<lparr>snake := next # snake g, score := score g + 10,
                            tickMs := max 55 (tickMs g - 2)\<rparr>)
       else Some (Inr (g\<lparr>snake := next # butlast (snake g)\<rparr>)))"
  using assms
  by (simp add: step_def Let_def hitWall_iff hitSelf_iff Vec2_eq_iff)

lemma key_dir_cases:
  assumes "key_dir c = Some d"
  shows "(c = CHR ''w'' \<or> c = CHR ''W'') \<and> d = Up
       \<or> (c = CHR ''s'' \<or> c = CHR ''S'') \<and> d = Down
       \<or> (c = CHR ''a'' \<or> c = CHR ''A'') \<and> d = Left
       \<or> (c = CHR ''d'' \<or> c = CHR ''D'') \<and> d = Right"
proof (cases "c = CHR ''w'' \<or> c = CHR ''W''")
  case True
  with assms show ?thesis unfolding key_dir_def by (simp only: if_True option.inject) blast
next
  case nw: False
  show ?thesis
  proof (cases "c = CHR ''s'' \<or> c = CHR ''S''")
    case True
    with assms nw show ?thesis unfolding key_dir_def
      by (simp only: if_True if_False option.inject) blast
  next
    case ns: False
    show ?thesis
    proof (cases "c = CHR ''a'' \<or> c = CHR ''A''")
      case True
      with assms nw ns show ?thesis unfolding key_dir_def
        by (simp only: if_True if_False option.inject) blast
    next
      case na: False
      show ?thesis
      proof (cases "c = CHR ''d'' \<or> c = CHR ''D''")
        case True
        with assms nw ns na show ?thesis unfolding key_dir_def
          by (simp only: if_True if_False option.inject) blast
      next
        case False
        with assms nw ns na show ?thesis unfolding key_dir_def
          by (simp only: if_True if_False option.distinct)
      qed
    qed
  qed
qed

lemma handleInput_turn:
  assumes "(c = CHR ''w'' \<or> c = CHR ''W'') \<and> d = Up
       \<or> (c = CHR ''s'' \<or> c = CHR ''S'') \<and> d = Down
       \<or> (c = CHR ''a'' \<or> c = CHR ''A'') \<and> d = Left
       \<or> (c = CHR ''d'' \<or> c = CHR ''D'') \<and> d = Right"
  shows "handleInput c g = Some (Inr (if d = opposite (dir g) then g else g\<lparr>dir := d\<rparr>))"
  using assms
  by (elim disjE conjE; hypsubst)
    (simp_all add: handleInput_def handleInput_next_def isOpposite_iff Let_def)

subsection \<open>What \<open>spawnFood\<close> and \<open>reset\<close> leave unchanged\<close>

lemma interior_frame: "w g' = w g \<Longrightarrow> h g' = h g \<Longrightarrow> interior g' p = interior g p"
  by (simp add: interior_def)

lemma spawnFood_frame:
  assumes "spawnFood g = Some (Inr g')"
  shows "w g' = w g" "h g' = h g" "snake g' = snake g" "dir g' = dir g" "quit g' = quit g"
    "gameOver g' = gameOver g" "score g' = score g" "tickMs g' = tickMs g"
proof -
  have eq: "g' = g\<lparr>rnd := rnd g', food := food g'\<rparr>" by (rule spawnFood_Inr(1)[OF assms])
  show "w g' = w g" by (subst eq) simp
  show "h g' = h g" by (subst eq) simp
  show "snake g' = snake g" by (subst eq) simp
  show "dir g' = dir g" by (subst eq) simp
  show "quit g' = quit g" by (subst eq) simp
  show "gameOver g' = gameOver g" by (subst eq) simp
  show "score g' = score g" by (subst eq) simp
  show "tickMs g' = tickMs g" by (subst eq) simp
qed

lemma spawnFood_example:
  "spawnFood (example_state f) = Some (Inr ((example_state f)\<lparr>food := \<lparr>x = 1, y = 1\<rparr>\<rparr>))"
  by (subst spawnFood.simps) (simp add: example_state_def nextInt_def Vec2_eq_def)

lemma reset_Inr:
  assumes "reset g = Some (Inr g')"
  shows "g' = g\<lparr>snake := initial_snake (w g) (h g), dir := Right, quit := False,
                 gameOver := False, score := 0, tickMs := 110, rnd := rnd g', food := food g'\<rparr>"
    and "interior g (food g')" and "food g' \<notin> set (initial_snake (w g) (h g))"
proof -
  let ?g1 = "g\<lparr>snake := initial_snake (w g) (h g), dir := Right, quit := False,
                 gameOver := False, score := 0, tickMs := 110\<rparr>"
  from assms have sp: "spawnFood ?g1 = Some (Inr g')"
    by (simp add: reset_def initial_snake_def)
  from spawnFood_Inr(1)[OF sp]
  show "g' = g\<lparr>snake := initial_snake (w g) (h g), dir := Right, quit := False,
                 gameOver := False, score := 0, tickMs := 110, rnd := rnd g', food := food g'\<rparr>"
    by simp
  from spawnFood_Inr(2)[OF sp] show "interior g (food g')" by (simp add: interior_def)
  from spawnFood_Inr(3)[OF sp] show "food g' \<notin> set (initial_snake (w g) (h g))" by simp
qed

lemma reset_fields:
  assumes "reset g = Some (Inr g')"
  shows "snake g' = initial_snake (w g) (h g)" "dir g' = Right" "\<not> quit g'" "\<not> gameOver g'"
    "score g' = 0" "tickMs g' = 110" "w g' = w g" "h g' = h g"
  by (subst reset_Inr(1)[OF assms], simp)+

lemma reset_no_fault: "3 \<le> w g \<Longrightarrow> 3 \<le> h g \<Longrightarrow> reset g \<noteq> Some (Inl e)"
  unfolding reset_def by (rule spawnFood_no_fault) simp_all

lemma reset_returns:
  assumes "3 \<le> w g" "3 \<le> h g"
    and "candidate (w g) (h g) (sdrop (2 * k) (rnd g)) \<notin> set (initial_snake (w g) (h g))"
  shows "\<exists>g'. reset g = Some (Inr g')"
  unfolding reset_def using assms
  by (intro spawnFood_returns[where k = k]) (simp_all add: initial_snake_def)

lemma handleInput_restart_key:
  assumes "c = CHR ''r'' \<or> c = CHR ''R''"
  shows "handleInput c g = (if gameOver g then reset g else Some (Inr g))"
  using assms
  by (elim disjE; hypsubst)
    (simp_all add: handleInput_def handleInput_next_def isOpposite_def Let_def)

subsection \<open>The branches of \<open>step\<close> and \<open>handleInput\<close>\<close>

lemma step_cases [consumes 1, case_names over crash move eat]:
  assumes "step g = Some (Inr g')"
  obtains
    (over) "gameOver g" "g' = g"
  | (crash) "\<not> gameOver g" "g' = g\<lparr>gameOver := True\<rparr>"
  | (move) head rest where "\<not> gameOver g" "snake g = head # rest"
      "interior g (step_next (dir g) head)" "step_next (dir g) head \<notin> set (snake g)"
      "g' = g\<lparr>snake := step_next (dir g) head # butlast (snake g)\<rparr>"
  | (eat) head rest where "\<not> gameOver g" "snake g = head # rest"
      "interior g (step_next (dir g) head)" "step_next (dir g) head \<notin> set (snake g)"
      "spawnFood (g\<lparr>snake := step_next (dir g) head # snake g, score := score g + 10,
                    tickMs := max 55 (tickMs g - 2)\<rparr>) = Some (Inr g')"
proof (cases "gameOver g")
  case True
  with assms have "g' = g" by (simp add: step_def)
  with True show ?thesis by (rule over)
next
  case False
  show ?thesis
  proof (cases "snake g")
    case Nil
    with False assms show ?thesis by (simp add: step_def)
  next
    case (Cons head rest)
    let ?n = "step_next (dir g) head"
    note st = step_playing[OF False Cons]
    show ?thesis
    proof (cases "\<not> interior g ?n \<or> ?n \<in> set (snake g)")
      case True
      with assms st have "g' = g\<lparr>gameOver := True\<rparr>" by (simp add: Let_def)
      with False show ?thesis by (rule crash)
    next
      case free: False
      show ?thesis
      proof (cases "?n = food g")
        case True
        with assms st free
        have "spawnFood (g\<lparr>snake := ?n # snake g, score := score g + 10,
                    tickMs := max 55 (tickMs g - 2)\<rparr>) = Some (Inr g')"
          by (simp add: Let_def split: if_splits)
        with False Cons free show ?thesis by (intro eat[of head rest]) simp_all
      next
        case nf: False
        with assms st free have "g' = g\<lparr>snake := ?n # butlast (snake g)\<rparr>"
          by (simp add: Let_def)
        with False Cons free show ?thesis by (intro move[of head rest]) simp_all
      qed
    qed
  qed
qed

lemma handleInput_cases [consumes 1, case_names same quit restart turn]:
  assumes "handleInput c g = Some (Inr g')"
  obtains
    (same) "g' = g"
  | (quit) "g' = g\<lparr>quit := True\<rparr>"
  | (restart) "gameOver g" "reset g = Some (Inr g')"
  | (turn) d where "g' = g\<lparr>dir := d\<rparr>"
proof (cases "c = CHR 0x00")
  case True
  have "handleInput c g = Some (Inr g)"
    by (simp only: handleInput_def if_P[OF True])
  with assms have "g' = g" by simp
  then show ?thesis by (rule same)
next
  case n0: False
  show ?thesis
  proof (cases "c = CHR ''q'' \<or> c = CHR ''Q''")
    case True
    have "handleInput c g = Some (Inr (g\<lparr>quit := True\<rparr>))"
      by (simp only: handleInput_def if_not_P[OF n0] if_P[OF True])
    with assms have "g' = g\<lparr>quit := True\<rparr>" by simp
    then show ?thesis by (rule quit)
  next
    case nq: False
    show ?thesis
    proof (cases "(c = CHR ''r'' \<or> c = CHR ''R'') \<and> gameOver g")
      case True
      have "handleInput c g = reset g"
        by (simp only: handleInput_def if_not_P[OF n0] if_not_P[OF nq] if_P[OF True])
      with assms have "reset g = Some (Inr g')" by simp
      with True show ?thesis by (intro restart) simp_all
    next
      case nr: False
      show ?thesis
      proof (cases "isOpposite (dir g) (handleInput_next c (dir g))")
        case True
        then have nn: "\<not> \<not> isOpposite (dir g) (handleInput_next c (dir g))" by simp
        have "handleInput c g = Some (Inr g)"
          by (simp only: handleInput_def Let_def if_not_P[OF n0] if_not_P[OF nq]
              if_not_P[OF nr] if_not_P[OF nn])
        with assms have "g' = g" by simp
        then show ?thesis by (rule same)
      next
        case False
        have "handleInput c g = Some (Inr (g\<lparr>dir := handleInput_next c (dir g)\<rparr>))"
          by (simp only: handleInput_def Let_def if_not_P[OF n0] if_not_P[OF nq]
              if_not_P[OF nr] if_P[OF False])
        with assms have "g' = g\<lparr>dir := handleInput_next c (dir g)\<rparr>" by simp
        then show ?thesis by (rule turn)
      qed
    qed
  qed
qed

lemma Game_new_fields:
  assumes "Game_new W H rng = Some (Inr g)"
  shows "snake g = initial_snake W H" "dir g = Right" "\<not> quit g" "\<not> gameOver g"
    "score g = 0" "tickMs g = 110" "w g = W" "h g = H"
    "interior g (food g)" "food g \<notin> set (snake g)"
proof -
  let ?g0 = "\<lparr>w = W, h = H, rnd = rng, snake = [], food = \<lparr>x = 0, y = 0\<rparr>,
            dir = Right, quit = False, gameOver = False, score = 0, tickMs = 110\<rparr>"
  from assms have r: "reset ?g0 = Some (Inr g)" by (simp add: Game_new_def)
  from reset_fields[OF r]
  show f: "snake g = initial_snake W H" "dir g = Right" "\<not> quit g" "\<not> gameOver g"
    "score g = 0" "tickMs g = 110" "w g = W" "h g = H" by simp_all
  from reset_Inr(2)[OF r] f(7,8) show "interior g (food g)" by (simp add: interior_def)
  from reset_Inr(3)[OF r] f(1) show "food g \<notin> set (snake g)" by simp
qed

subsection \<open>Invariants of the reachable states\<close>

lemma initial_snake_distinct: "distinct (initial_snake W H)"
  by (simp add: initial_snake_def)

lemma step_distinct:
  assumes "distinct (snake g)" and "step g = Some (Inr g')"
  shows "distinct (snake g')"
  using assms(2)
proof (cases rule: step_cases)
  case over
  with assms(1) show ?thesis by simp
next
  case crash
  with assms(1) show ?thesis by simp
next
  case (move head rest)
  from move(4) have "step_next (dir g) head \<notin> set (butlast (snake g))"
    by (auto dest: in_set_butlastD)
  with assms(1) move(5) show ?thesis by (simp add: distinct_butlast)
next
  case (eat head rest)
  from spawnFood_frame(3)[OF eat(5)] eat(4) assms(1) show ?thesis by simp
qed

lemma handleInput_distinct:
  assumes "distinct (snake g)" and "handleInput c g = Some (Inr g')"
  shows "distinct (snake g')"
  using assms(2)
proof (cases rule: handleInput_cases)
  case same
  with assms(1) show ?thesis by simp
next
  case quit
  with assms(1) show ?thesis by simp
next
  case restart
  from reset_fields(1)[OF restart(2)] show ?thesis by (simp add: initial_snake_distinct)
next
  case (turn d)
  with assms(1) show ?thesis by simp
qed

lemma reachable_distinct: "reachable W H g \<Longrightarrow> distinct (snake g)"
proof (induction rule: reachable.induct)
  case (init rng g)
  from Game_new_fields(1)[OF init] show ?case by (simp add: initial_snake_distinct)
next
  case (input g c g')
  then show ?case by (intro handleInput_distinct[of g c g'])
next
  case (tick g g')
  then show ?case by (intro step_distinct[of g g'])
qed

lemma Game_new_example: "Game_new 50 22 (sconst 0) = Some (Inr (example_state \<lparr>x = 1, y = 1\<rparr>))"
  unfolding Game_new_def reset_def
  by (subst spawnFood.simps) (simp add: example_state_def nextInt_def Vec2_eq_def)

lemma reachable_example: "reachable 50 22 (example_state \<lparr>x = 1, y = 1\<rparr>)"
  by (rule reachable.init[OF Game_new_example])

lemma step_example:
  "step (example_state \<lparr>x = 1, y = 1\<rparr>) =
     Some (Inr ((example_state \<lparr>x = 1, y = 1\<rparr>)
        \<lparr>snake := [\<lparr>x = 26, y = 11\<rparr>, \<lparr>x = 25, y = 11\<rparr>, \<lparr>x = 24, y = 11\<rparr>]\<rparr>))"
  by (simp add: step_def example_state_def step_next_simps hitWall_def hitSelf_def Vec2_eq_def)

subsection \<open>Writes into the buffer\<close>

lemma set_update_cases:
  assumes "row \<in> set (buf[n := v])"
  shows "row = v \<or> row \<in> set buf"
  using assms set_update_subset_insert[of buf n v] by blast

lemma put_Inr:
  assumes "buffer_dims R C buf" "0 \<le> r" "r < int R" "0 \<le> c" "c < int C"
  shows "\<exists>buf'. put buf r c ch = Inr buf' \<and> buffer_dims R C buf'"
proof -
  from assms(1) have len: "length buf = R" and rows: "\<forall>row\<in>set buf. length row = C"
    by (simp_all add: buffer_dims_def list_all_iff)
  from assms(2,3) len have r: "nat r < length buf" by linarith
  then have "buf ! nat r \<in> set buf" by (rule nth_mem)
  with rows have lr: "length (buf ! nat r) = C" by blast
  let ?b = "buf[nat r := (buf ! nat r)[nat c := ch]]"
  have cond: "0 \<le> r \<and> r < int (length buf) \<and> 0 \<le> c \<and> c < int (length (buf ! nat r))"
    using assms(2-5) unfolding len lr by blast
  have p: "put buf r c ch = Inr ?b"
    unfolding put_def by (simp only: if_P[OF cond])
  have "\<forall>row\<in>set ?b. length row = C"
  proof
    fix row assume "row \<in> set ?b"
    then have "row = (buf ! nat r)[nat c := ch] \<or> row \<in> set buf"
      by (rule set_update_cases)
    then show "length row = C"
    proof
      assume "row = (buf ! nat r)[nat c := ch]"
      with lr show ?thesis by simp
    next
      assume "row \<in> set buf"
      with rows show ?thesis by blast
    qed
  qed
  with len have "buffer_dims R C ?b" by (simp add: buffer_dims_def list_all_iff)
  with p show ?thesis by blast
qed

lemma put_Inl:
  assumes "buffer_dims R C buf" "\<not> (0 \<le> r \<and> r < int R \<and> 0 \<le> c \<and> c < int C)"
  shows "put buf r c ch = Inl OutOfBounds"
proof (cases "0 \<le> r \<and> r < int R")
  case False
  from assms(1) have "length buf = R" by (simp add: buffer_dims_def)
  with False have "\<not> (0 \<le> r \<and> r < int (length buf) \<and> 0 \<le> c
      \<and> c < int (length (buf ! nat r)))" by blast
  then show ?thesis unfolding put_def by (rule if_not_P)
next
  case True
  from assms(1) have len: "length buf = R" and rows: "\<forall>row\<in>set buf. length row = C"
    by (simp_all add: buffer_dims_def list_all_iff)
  from True len have "nat r < length buf" by linarith
  then have "buf ! nat r \<in> set buf" by (rule nth_mem)
  with rows have "length (buf ! nat r) = C" by blast
  with True assms(2) show ?thesis by (simp add: put_def)
qed

lemma put_all_Inr:
  assumes "buffer_dims R C buf" "list_all (in_dims R C) ws"
  shows "\<exists>buf'. put_all buf ws = Inr buf' \<and> buffer_dims R C buf'"
  using assms
proof (induction ws arbitrary: buf)
  case Nil
  then show ?case by simp
next
  case (Cons wr ws)
  obtain r c ch where wr: "wr = (r, c, ch)" by (cases wr)
  from Cons.prems(2) wr have "0 \<le> r" "r < int R" "0 \<le> c" "c < int C"
    by (simp_all add: in_dims_def)
  from put_Inr[OF Cons.prems(1) this, of ch]
  obtain b1 where b1: "put buf r c ch = Inr b1" "buffer_dims R C b1" by blast
  from Cons.prems(2) have "list_all (in_dims R C) ws" by simp
  from Cons.IH[OF b1(2) this] b1(1) wr show ?case by simp
qed

lemma put_all_Inr_D:
  assumes "buffer_dims R C buf" "put_all buf ws = Inr buf'"
  shows "list_all (in_dims R C) ws"
  using assms
proof (induction ws arbitrary: buf)
  case Nil
  then show ?case by simp
next
  case (Cons wr ws)
  obtain r c ch where wr: "wr = (r, c, ch)" by (cases wr)
  show ?case
  proof (cases "0 \<le> r \<and> r < int R \<and> 0 \<le> c \<and> c < int C")
    case False
    from put_Inl[OF Cons.prems(1) False, of ch] Cons.prems(2) wr show ?thesis by simp
  next
    case True
    then have "0 \<le> r" "r < int R" "0 \<le> c" "c < int C" by simp_all
    from put_Inr[OF Cons.prems(1) this, of ch]
    obtain b1 where b1: "put buf r c ch = Inr b1" "buffer_dims R C b1" by blast
    with Cons.prems(2) wr have "put_all b1 ws = Inr buf'" by simp
    from Cons.IH[OF b1(2) this] True wr show ?thesis by (simp add: in_dims_def)
  qed
qed

lemma blank_dims: "buffer_dims R C (replicate R (replicate C ch))"
  by (simp add: buffer_dims_def list_all_iff)

lemma in_dims_in_buffer:
  "0 \<le> w g \<Longrightarrow> 0 \<le> h g \<Longrightarrow> in_dims (nat (h g)) (nat (w g)) wr = in_buffer g wr"
  by (cases wr) (simp add: in_dims_def in_buffer_def)

lemma buildBuffer_Inr_iff:
  "(\<exists>buf. buildBuffer g = Inr buf) \<longleftrightarrow>
     0 \<le> w g \<and> 0 \<le> h g \<and> list_all (in_buffer g) (all_writes g)"
proof (cases "w g < 0 \<or> h g < 0")
  case True
  then show ?thesis by (auto simp add: buildBuffer_def)
next
  case False
  then have wh: "0 \<le> w g" "0 \<le> h g" by simp_all
  let ?b = "replicate (nat (h g)) (replicate (nat (w g)) CHR '' '')"
  from False have bb: "buildBuffer g = put_all ?b (all_writes g)"
    by (simp add: buildBuffer_def all_writes_def)
  have eq: "list_all (in_dims (nat (h g)) (nat (w g))) ws = list_all (in_buffer g) ws" for ws
    by (simp add: list_all_iff in_dims_in_buffer[OF wh])
  show ?thesis
  proof
    assume "\<exists>buf. buildBuffer g = Inr buf"
    then obtain buf where "put_all ?b (all_writes g) = Inr buf" unfolding bb by blast
    from put_all_Inr_D[OF blank_dims this] wh show
      "0 \<le> w g \<and> 0 \<le> h g \<and> list_all (in_buffer g) (all_writes g)"
      by (simp add: eq)
  next
    assume "0 \<le> w g \<and> 0 \<le> h g \<and> list_all (in_buffer g) (all_writes g)"
    then have "list_all (in_dims (nat (h g)) (nat (w g))) (all_writes g)" by (simp add: eq)
    from put_all_Inr[OF blank_dims this] show "\<exists>buf. buildBuffer g = Inr buf"
      unfolding bb by blast
  qed
qed

subsection \<open>Staying inside the walls\<close>

lemma sdiv2_nonneg: "0 \<le> (a::int) \<Longrightarrow> a sdiv 2 = a div 2"
  by (simp add: signed_divide_int_def sgn_if)

lemma initial_snake_interior:
  assumes "6 \<le> w g" "3 \<le> h g"
  shows "list_all (interior g) (initial_snake (w g) (h g))"
proof -
  from assms have "w g sdiv 2 = w g div 2" "h g sdiv 2 = h g div 2"
    by (simp_all add: sdiv2_nonneg)
  moreover from assms have "3 \<le> w g div 2" "w g div 2 \<le> w g - 2" "1 \<le> h g div 2"
    "h g div 2 \<le> h g - 2" by linarith+
  ultimately show ?thesis by (simp add: initial_snake_def interior_def)
qed

lemma inside_walls_update [simp]:
  "inside_walls (g\<lparr>gameOver := b\<rparr>) = inside_walls g"
  "inside_walls (g\<lparr>quit := b\<rparr>) = inside_walls g"
  "inside_walls (g\<lparr>dir := d\<rparr>) = inside_walls g"
  by (simp_all add: inside_walls_def list_all_iff interior_def)

lemma inside_wallsI:
  assumes "w g' = w g" "h g' = h g" "interior g (food g')" "\<forall>p\<in>set (snake g'). interior g p"
  shows "inside_walls g'"
proof -
  have "interior g' p = interior g p" for p
    using assms(1,2) by (rule interior_frame)
  with assms(3,4) show ?thesis by (simp add: inside_walls_def list_all_iff)
qed

lemma inside_wallsD:
  assumes "inside_walls g"
  shows "interior g (food g)" "\<forall>p\<in>set (snake g). interior g p"
  using assms by (simp_all add: inside_walls_def list_all_iff)

lemma step_inside:
  assumes "inside_walls g" and "step g = Some (Inr g')"
  shows "inside_walls g'"
  using assms(2)
proof (cases rule: step_cases)
  case over
  with assms(1) show ?thesis by simp
next
  case crash
  with assms(1) show ?thesis by simp
next
  case (move head rest)
  have sn: "snake g' = step_next (dir g) head # butlast (snake g)"
    and fr: "w g' = w g" "h g' = h g" "food g' = food g"
    by (simp_all add: move(5))
  have "\<forall>p\<in>set (snake g'). interior g p"
  proof
    fix p assume "p \<in> set (snake g')"
    then have "p = step_next (dir g) head \<or> p \<in> set (butlast (snake g))"
      by (simp add: sn)
    then show "interior g p"
    proof
      assume "p = step_next (dir g) head"
      with move(3) show ?thesis by simp
    next
      assume "p \<in> set (butlast (snake g))"
      then have "p \<in> set (snake g)" by (rule in_set_butlastD)
      with inside_wallsD(2)[OF assms(1)] show ?thesis by blast
    qed
  qed
  with fr inside_wallsD(1)[OF assms(1)] show ?thesis
    by (intro inside_wallsI[of g' g]) simp_all
next
  case (eat head rest)
  note fr = spawnFood_frame(1,2,3)[OF eat(5)]
  from fr have sn: "snake g' = step_next (dir g) head # snake g"
    and wh: "w g' = w g" "h g' = h g" by simp_all
  from spawnFood_Inr(2)[OF eat(5)] have fd: "interior g (food g')"
    by (simp add: interior_def)
  have "\<forall>p\<in>set (snake g'). interior g p"
  proof
    fix p assume "p \<in> set (snake g')"
    then have "p = step_next (dir g) head \<or> p \<in> set (snake g)"
      by (simp add: sn)
    then show "interior g p"
    proof
      assume "p = step_next (dir g) head"
      with eat(3) show ?thesis by simp
    next
      assume "p \<in> set (snake g)"
      with inside_wallsD(2)[OF assms(1)] show ?thesis by blast
    qed
  qed
  with wh fd show ?thesis by (intro inside_wallsI[of g' g]) simp_all
qed

lemma reset_inside:
  assumes "6 \<le> w g" "3 \<le> h g" "reset g = Some (Inr g')"
  shows "inside_walls g'"
proof -
  note f = reset_fields(1,7,8)[OF assms(3)]
  from initial_snake_interior[OF assms(1,2)] f(1)
  have "\<forall>p\<in>set (snake g'). interior g p" by (simp add: list_all_iff)
  with f(2,3) reset_Inr(2)[OF assms(3)] show ?thesis
    by (intro inside_wallsI[of g' g]) simp_all
qed

lemma handleInput_inside:
  assumes "inside_walls g" "6 \<le> w g" "3 \<le> h g" and "handleInput c g = Some (Inr g')"
  shows "inside_walls g'"
  using assms(4)
proof (cases rule: handleInput_cases)
  case same
  with assms(1) show ?thesis by simp
next
  case quit
  with assms(1) show ?thesis by simp
next
  case restart
  from reset_inside[OF assms(2,3) restart(2)] show ?thesis .
next
  case (turn d)
  with assms(1) show ?thesis by simp
qed

lemma step_dims:
  assumes "step g = Some (Inr g')"
  shows "w g' = w g \<and> h g' = h g"
  using assms
proof (cases rule: step_cases)
  case (eat head rest)
  from spawnFood_frame(1,2)[OF eat(5)] show ?thesis by simp
qed simp_all

lemma handleInput_dims:
  assumes "handleInput c g = Some (Inr g')"
  shows "w g' = w g \<and> h g' = h g"
  using assms
proof (cases rule: handleInput_cases)
  case restart
  from reset_fields(7,8)[OF restart(2)] show ?thesis by simp
qed simp_all

lemma reachable_dims: "reachable W H g \<Longrightarrow> w g = W \<and> h g = H"
proof (induction rule: reachable.induct)
  case (init rng g)
  from Game_new_fields(7,8)[OF init] show ?case by simp
next
  case (input g c g')
  with handleInput_dims[OF input(2)] show ?case by simp
next
  case (tick g g')
  with step_dims[OF tick(2)] show ?case by simp
qed

lemma reachable_inside:
  assumes "reachable W H g" "6 \<le> W" "3 \<le> H"
  shows "inside_walls g"
  using assms
proof (induction rule: reachable.induct)
  case (init rng g)
  from Game_new_fields[OF init(1)] init(2,3)
  have f: "snake g = initial_snake (w g) (h g)" "6 \<le> w g" "3 \<le> h g" "interior g (food g)"
    by simp_all
  from initial_snake_interior[OF f(2,3)] f(1,4) show ?case
    by (simp add: inside_walls_def)
next
  case (input g c g')
  from reachable_dims[OF input(1)] input(4,5) have "6 \<le> w g" "3 \<le> h g" by simp_all
  from handleInput_inside[OF _ this input(2)] input show ?case by simp
next
  case (tick g g')
  then show ?case by (intro step_inside[of g g']) simp_all
qed

subsection \<open>The writes of \<open>buildBuffer\<close> stay in the buffer\<close>

lemma interior_in_buffer: "interior g p \<Longrightarrow> in_buffer g (y p, x p, ch)"
  by (simp add: interior_def in_buffer_def)

lemma border_rows_in_buffer:
  assumes "0 < h g"
  shows "list_all (in_buffer g) (border_rows g)"
  using assms by (auto simp add: border_rows_def list_all_iff in_buffer_def)

lemma border_cols_in_buffer:
  assumes "0 < w g"
  shows "list_all (in_buffer g) (border_cols g)"
  using assms by (auto simp add: border_cols_def list_all_iff in_buffer_def)

lemma food_writes_in_buffer:
  assumes "inside_walls g"
  shows "list_all (in_buffer g) (food_writes g)"
  using inside_wallsD(1)[OF assms] by (simp add: food_writes_def interior_in_buffer)

lemma snake_writes_in_buffer:
  assumes "inside_walls g"
  shows "list_all (in_buffer g) (snake_writes g)"
proof -
  have "in_buffer g wr" if "wr \<in> set (snake_writes g)" for wr
  proof -
    from that obtain i p where ip: "(i, p) \<in> set (enumerate 0 (snake g))"
      and wr: "wr = (y p, x p, if i = 0 then CHR ''O'' else CHR ''o'')"
      by (auto simp add: snake_writes_def)
    from ip have "p \<in> set (snake g)" by (auto simp add: in_set_enumerate_eq)
    with inside_wallsD(2)[OF assms] have "interior g p" by blast
    then show ?thesis unfolding wr by (rule interior_in_buffer)
  qed
  then show ?thesis by (simp add: list_all_iff)
qed

lemma hud_writes_in_buffer:
  assumes "0 < h g"
  shows "list_all (in_buffer g) (hud_writes g)"
proof -
  have "int i + 2 < w g" if "i \<in> set (takeWhile (\<lambda>i. int i + 2 < w g) xs)" for i xs
    using set_takeWhileD[OF that] by simp
  with assms show ?thesis
    by (auto simp add: hud_writes_def Let_def list_all_iff in_buffer_def)
qed

lemma msg_writes_in_buffer:
  assumes "0 < h g"
  shows "list_all (in_buffer g) (msg_writes g)"
proof -
  let ?start = "max 1 ((w g - int (length ''GAME OVER  (R=restart, Q=quit)'')) sdiv 2)"
  have col: "?start + int i < w g - 1"
    if "i \<in> set (takeWhile (\<lambda>i. ?start + int i < w g - 1) xs)" for i xs
    using set_takeWhileD[OF that] by simp
  from assms have "h g sdiv 2 = h g div 2" by (simp add: sdiv2_nonneg)
  with assms have row: "0 \<le> h g sdiv 2" "h g sdiv 2 < h g" by linarith+
  have "in_buffer g wr" if "wr \<in> set (msg_writes g)" for wr
  proof -
    from that obtain i where
      i: "i \<in> set (takeWhile (\<lambda>i. ?start + int i < w g - 1)
             [0..<length ''GAME OVER  (R=restart, Q=quit)''])"
      and wr: "wr = (h g sdiv 2, ?start + int i, ''GAME OVER  (R=restart, Q=quit)'' ! i)"
      unfolding msg_writes_def Let_def by auto
    from col[OF i] have "?start + int i < w g" "0 \<le> ?start + int i" by linarith+
    with row show ?thesis unfolding wr by (simp add: in_buffer_def)
  qed
  then show ?thesis by (simp add: list_all_iff)
qed

lemma inside_walls_buildBuffer:
  assumes "inside_walls g"
  shows "\<exists>buf. buildBuffer g = Inr buf"
proof -
  from inside_wallsD(1)[OF assms] have wh: "0 < w g" "0 < h g"
    by (simp_all add: interior_def)
  from border_rows_in_buffer[OF wh(2)] border_cols_in_buffer[OF wh(1)]
    food_writes_in_buffer[OF assms] snake_writes_in_buffer[OF assms]
    hud_writes_in_buffer[OF wh(2)] msg_writes_in_buffer[OF wh(2)]
  have "list_all (in_buffer g) (all_writes g)" by (simp add: all_writes_def)
  with wh show ?thesis by (simp add: buildBuffer_Inr_iff)
qed

subsection \<open>The range of the integers in the program\<close>

lemma step_tick:
  assumes "55 \<le> tickMs g \<and> tickMs g \<le> 110" and "step g = Some (Inr g')"
  shows "55 \<le> tickMs g' \<and> tickMs g' \<le> 110"
  using assms(2)
proof (cases rule: step_cases)
  case over
  with assms(1) show ?thesis by simp
next
  case crash
  with assms(1) show ?thesis by simp
next
  case (move head rest)
  with assms(1) show ?thesis by simp
next
  case (eat head rest)
  from spawnFood_frame(8)[OF eat(5)] assms(1) show ?thesis by simp
qed

lemma handleInput_tick:
  assumes "55 \<le> tickMs g \<and> tickMs g \<le> 110" and "handleInput c g = Some (Inr g')"
  shows "55 \<le> tickMs g' \<and> tickMs g' \<le> 110"
  using assms(2)
proof (cases rule: handleInput_cases)
  case same
  with assms(1) show ?thesis by simp
next
  case quit
  with assms(1) show ?thesis by simp
next
  case restart
  from reset_fields(6)[OF restart(2)] show ?thesis by simp
next
  case (turn d)
  with assms(1) show ?thesis by simp
qed

lemma reachable_tick: "reachable W H g \<Longrightarrow> 55 \<le> tickMs g \<and> tickMs g \<le> 110"
proof (induction rule: reachable.induct)
  case (init rng g)
  from Game_new_fields(6)[OF init] show ?case by simp
next
  case (input g c g')
  then show ?case by (intro handleInput_tick[of g c g'])
next
  case (tick g g')
  then show ?case by (intro step_tick[of g g'])
qed

lemma Vec2_coords_inj: "inj_on (\<lambda>p::Vec2. (x p, y p)) A"
  by (rule inj_onI) simp

lemma snake_length_bound:
  assumes "distinct (snake g)" "inside_walls g"
  shows "int (length (snake g)) \<le> (w g - 2) * (h g - 2)"
proof -
  let ?f = "\<lambda>p::Vec2. (x p, y p)"
  let ?box = "{1..w g - 2} \<times> {1..h g - 2}"
  from inside_wallsD[OF assms(2)] have wh: "0 \<le> w g - 2" "0 \<le> h g - 2"
    and sub: "?f ` set (snake g) \<subseteq> ?box"
    by (auto simp add: interior_def)
  from assms(1) have "length (snake g) = card (set (snake g))"
    by (simp add: distinct_card)
  also have "\<dots> = card (?f ` set (snake g))"
    by (simp add: card_image[OF Vec2_coords_inj])
  also from sub have "\<dots> \<le> card ?box" by (intro card_mono) simp_all
  also from wh have "int (card ?box) = (w g - 2) * (h g - 2)" by simp
  finally show ?thesis by simp
qed

lemma step_score:
  assumes "3 \<le> length (snake g) \<and> score g = 10 * (int (length (snake g)) - 3)"
    and "step g = Some (Inr g')"
  shows "3 \<le> length (snake g') \<and> score g' = 10 * (int (length (snake g')) - 3)"
  using assms(2)
proof (cases rule: step_cases)
  case over
  with assms(1) show ?thesis by simp
next
  case crash
  with assms(1) show ?thesis by simp
next
  case (move head rest)
  from move(2) have "length (butlast (snake g)) = length rest" by simp
  with assms(1) move(2) show ?thesis by (simp add: move(5))
next
  case (eat head rest)
  from spawnFood_frame(3,7)[OF eat(5)] assms(1) show ?thesis by simp
qed

lemma handleInput_score:
  assumes "3 \<le> length (snake g) \<and> score g = 10 * (int (length (snake g)) - 3)"
    and "handleInput c g = Some (Inr g')"
  shows "3 \<le> length (snake g') \<and> score g' = 10 * (int (length (snake g')) - 3)"
  using assms(2)
proof (cases rule: handleInput_cases)
  case same
  with assms(1) show ?thesis by simp
next
  case quit
  with assms(1) show ?thesis by simp
next
  case restart
  from reset_fields(1,5)[OF restart(2)] show ?thesis by (simp add: initial_snake_def)
next
  case (turn d)
  with assms(1) show ?thesis by simp
qed

lemma reachable_score:
  "reachable W H g \<Longrightarrow>
     3 \<le> length (snake g) \<and> score g = 10 * (int (length (snake g)) - 3)"
proof (induction rule: reachable.induct)
  case (init rng g)
  from Game_new_fields(1,5)[OF init] show ?case by (simp add: initial_snake_def)
next
  case (input g c g')
  then show ?case by (intro handleInput_score[of g c g'])
next
  case (tick g g')
  then show ?case by (intro step_score[of g g'])
qed

text \<open>
  In the program, \<open>main\<close> constructs \<open>Game game(50, 22)\<close>. The body has at most
  \<open>48 * 20\<close> segments, so the score stays below 9571, the tick interval between 55 and
  110 and every coordinate between 1 and 48: no \<open>int\<close> of the program overflows.
\<close>

lemma reachable_main_int_range:
  assumes "reachable 50 22 g"
  shows "length (snake g) \<le> 960 \<and> 0 \<le> score g \<and> score g \<le> 9570
       \<and> 55 \<le> tickMs g \<and> tickMs g \<le> 110
       \<and> (\<forall>p\<in>set (food g # snake g). 1 \<le> x p \<and> x p \<le> 48 \<and> 1 \<le> y p \<and> y p \<le> 20)"
proof -
  have iw: "inside_walls g" using assms by (rule reachable_inside) simp_all
  from reachable_dims[OF assms] have wh: "w g = 50" "h g = 22" by simp_all
  from snake_length_bound[OF reachable_distinct[OF assms] iw] wh
  have len: "length (snake g) \<le> 960" by simp
  from reachable_score[OF assms]
  have sc: "3 \<le> length (snake g)" "score g = 10 * (int (length (snake g)) - 3)"
    by simp_all
  from len sc have "0 \<le> score g" "score g \<le> 9570" by simp_all
  moreover from iw wh
  have "\<forall>p\<in>set (food g # snake g). 1 \<le> x p \<and> x p \<le> 48 \<and> 1 \<le> y p \<and> y p \<le> 20"
    by (simp add: inside_walls_def list_all_iff interior_def)
  moreover note reachable_tick[OF assms] len
  ultimately show ?thesis by blast
qed

subsection \<open>The examples, evaluated\<close>

lemma step_eats_example:
  "step (example_state \<lparr>x = 26, y = 11\<rparr>) =
     Some (Inr ((example_state \<lparr>x = 1, y = 1\<rparr>)
       \<lparr>snake := [\<lparr>x = 26, y = 11\<rparr>, \<lparr>x = 25, y = 11\<rparr>, \<lparr>x = 24, y = 11\<rparr>, \<lparr>x = 23, y = 11\<rparr>],
        score := 10, tickMs := 108\<rparr>))"
  unfolding step_def
  by (subst spawnFood.simps)
    (simp add: example_state_def step_next_simps hitWall_def hitSelf_def nextInt_def
      Vec2_eq_def INT_MAX_def INT_MIN_def)

text \<open>
  The bound on the grid in \<open>reachable_inside\<close> is needed: \<open>reset\<close> places the tail at
  \<open>w / 2 - 2\<close>, so on a grid 3 wide and 5 high the constructor returns a state whose
  tail is at column \<open>-1\<close>, and \<open>buildBuffer\<close> writes outside the buffer there. The
  program's grid is 50 by 22.
\<close>

lemma narrow_grid_out_of_bounds:
  "Game_new 3 5 (sconst 0) =
     Some (Inr \<lparr>w = 3, h = 5, rnd = sconst 0,
                 snake = [\<lparr>x = 1, y = 2\<rparr>, \<lparr>x = 0, y = 2\<rparr>, \<lparr>x = - 1, y = 2\<rparr>],
                 food = \<lparr>x = 1, y = 1\<rparr>, dir = Right, quit = False, gameOver = False,
                 score = 0, tickMs = 110\<rparr>)"
  "\<nexists>buf. buildBuffer \<lparr>w = 3, h = 5, rnd = sconst 0,
                 snake = [\<lparr>x = 1, y = 2\<rparr>, \<lparr>x = 0, y = 2\<rparr>, \<lparr>x = - 1, y = 2\<rparr>],
                 food = \<lparr>x = 1, y = 1\<rparr>, dir = Right, quit = False, gameOver = False,
                 score = 0, tickMs = 110\<rparr> = Inr buf"
proof -
  let ?g = "\<lparr>w = 3, h = 5, rnd = sconst 0,
                 snake = [\<lparr>x = 1, y = 2\<rparr>, \<lparr>x = 0, y = 2\<rparr>, \<lparr>x = - 1, y = 2\<rparr>],
                 food = \<lparr>x = 1, y = 1\<rparr>, dir = Right, quit = False, gameOver = False,
                 score = 0, tickMs = 110\<rparr>"
  show "Game_new 3 5 (sconst 0) = Some (Inr ?g)"
    unfolding Game_new_def reset_def
    by (subst spawnFood.simps) (simp add: nextInt_def Vec2_eq_def)
  have "\<not> list_all (in_buffer ?g) (snake_writes ?g)"
    by (simp add: snake_writes_def in_buffer_def)
  then have "\<not> list_all (in_buffer ?g) (all_writes ?g)"
    by (simp add: all_writes_def)
  then show "\<nexists>buf. buildBuffer ?g = Inr buf"
    by (simp only: buildBuffer_Inr_iff) simp
qed

subsection \<open>A full board\<close>

lemma Vec2_eq_coords: "(p :: Vec2) = \<lparr>x = a, y = b\<rparr> \<longleftrightarrow> x p = a \<and> y p = b"
  by (cases p) simp

lemma row_set:
  "p \<in> set (map (\<lambda>c. \<lparr>x = c, y = r\<rparr>) [a..b]) \<longleftrightarrow> y p = r \<and> a \<le> x p \<and> x p \<le> b"
  by (auto simp add: Vec2_eq_coords)

lemma full_board_snake_set:
  "p \<in> set full_board_snake \<longleftrightarrow>
     (y p = 1 \<and> 2 \<le> x p \<and> x p \<le> 48) \<or> (2 \<le> y p \<and> y p \<le> 20 \<and> 1 \<le> x p \<and> x p \<le> 48)"
proof -
  have row: "p \<in> set (if even r then rev (map (\<lambda>c. \<lparr>x = c, y = r\<rparr>) [1..48])
                          else map (\<lambda>c. \<lparr>x = c, y = r\<rparr>) [1..48])
             \<longleftrightarrow> y p = r \<and> 1 \<le> x p \<and> x p \<le> 48" for r
    by (cases "even r") (simp_all only: if_True if_False set_rev row_set)
  have rest: "p \<in> set (concat (map (\<lambda>r. if even r then rev (map (\<lambda>c. \<lparr>x = c, y = r\<rparr>) [1..48])
                          else map (\<lambda>c. \<lparr>x = c, y = r\<rparr>) [1..48]) [2..20]))
             \<longleftrightarrow> 2 \<le> y p \<and> y p \<le> 20 \<and> 1 \<le> x p \<and> x p \<le> 48"
    unfolding set_concat set_map UN_iff set_upto image_iff bex_simps row
    by auto
  show ?thesis unfolding full_board_snake_def set_append Un_iff row_set rest ..
qed

lemma full_board_snake_head:
  "full_board_snake = \<lparr>x = 2, y = 1\<rparr> # tl full_board_snake"
proof -
  have "[2..48] = 2 # [3..(48::int)]" by (subst upto_rec1) simp_all
  then show ?thesis by (simp add: full_board_snake_def)
qed

lemma full_board_snake_length: "length full_board_snake = 959"
proof -
  have "length (concat (map (\<lambda>r. if even r then rev (map (\<lambda>c. \<lparr>x = c, y = r\<rparr>) [1..48])
                          else map (\<lambda>c. \<lparr>x = c, y = r\<rparr>) [1..(48::int)]) [2..(20::int)])) = 19 * 48"
    by (simp add: length_concat comp_def sum_list_triv if_distrib[of length] cong: if_cong)
  then show ?thesis by (simp add: full_board_snake_def)
qed

lemma full_board_snake_distinct: "distinct full_board_snake"
proof -
  let ?f = "\<lambda>(a, b). \<lparr>x = a, y = b\<rparr>"
  let ?A = "{2..48::int} \<times> {1::int} \<union> {1..48::int} \<times> {2..20::int}"
  have "set full_board_snake = ?f ` ?A"
  proof (rule set_eqI)
    fix p :: Vec2
    have "p \<in> ?f ` ?A \<longleftrightarrow> (x p, y p) \<in> ?A"
    proof
      assume "p \<in> ?f ` ?A"
      then obtain a b where "(a, b) \<in> ?A" "p = \<lparr>x = a, y = b\<rparr>" by auto
      then show "(x p, y p) \<in> ?A" by simp
    next
      assume "(x p, y p) \<in> ?A"
      moreover have "p = ?f (x p, y p)" by simp
      ultimately show "p \<in> ?f ` ?A" by (rule rev_image_eqI)
    qed
    then show "p \<in> set full_board_snake \<longleftrightarrow> p \<in> ?f ` ?A"
      by (auto simp add: full_board_snake_set)
  qed
  moreover have "inj_on ?f ?A" by (rule inj_onI) auto
  ultimately have "card (set full_board_snake) = card ?A" by (simp add: card_image)
  also have "\<dots> = card ({2..48::int} \<times> {1::int}) + card ({1..48::int} \<times> {2..20::int})"
    by (intro card_Un_disjoint) auto
  also have "\<dots> = 959" by simp
  finally show ?thesis by (simp add: card_distinct full_board_snake_length)
qed

text \<open>
  The head moves onto the food, the grown body fills the interior, and the loop of
  \<open>spawnFood\<close> finds no free cell: \<open>step\<close> does not return.
\<close>

lemma step_full_board: "step full_board = None"
proof -
  let ?g1 = "full_board\<lparr>snake := \<lparr>x = 1, y = 1\<rparr> # full_board_snake, score := 9570,
                tickMs := 55\<rparr>"
  have ng: "\<not> gameOver full_board" and sn: "snake full_board = \<lparr>x = 2, y = 1\<rparr> # tl full_board_snake"
    using full_board_snake_head by (simp_all add: full_board_def)
  have nx: "step_next (dir full_board) \<lparr>x = 2, y = 1\<rparr> = \<lparr>x = 1, y = 1\<rparr>"
    by (simp add: full_board_def step_next_simps)
  have free: "\<lparr>x = 1, y = 1\<rparr> \<notin> set full_board_snake"
    by (simp add: full_board_snake_set)
  have "step full_board = spawnFood ?g1"
    unfolding step_playing[OF ng sn] nx Let_def
    using free by (simp add: full_board_def interior_def INT_MAX_def INT_MIN_def)
  also have "\<dots> = None"
  proof (rule spawnFood_diverges)
    show "3 \<le> w ?g1" "3 \<le> h ?g1" by (simp_all add: full_board_def)
    show "\<forall>p. interior ?g1 p \<longrightarrow> p \<in> set (snake ?g1)"
    proof (intro allI impI)
      fix p assume "interior ?g1 p"
      then have b: "1 \<le> x p" "x p \<le> 48" "1 \<le> y p" "y p \<le> 20"
        by (simp_all add: interior_def full_board_def)
      show "p \<in> set (snake ?g1)"
      proof (cases "x p = 1 \<and> y p = 1")
        case True
        then have "p = \<lparr>x = 1, y = 1\<rparr>" by (simp add: Vec2_eq_coords)
        then show ?thesis by simp
      next
        case False
        with b have "p \<in> set full_board_snake" unfolding full_board_snake_set by linarith
        then show ?thesis by simp
      qed
    qed
  qed
  finally show ?thesis .
qed

text \<open>\<open>score_ += 10\<close> leaves the range of \<open>int\<close> at a score of 2147483640.\<close>

lemma step_score_overflow:
  "step ((example_state \<lparr>x = 26, y = 11\<rparr>)\<lparr>score := 2147483640\<rparr>) = Some (Inl SignedOverflow)"
  by (simp add: step_def example_state_def step_next_simps hitWall_def hitSelf_def Vec2_eq_def
      INT_MAX_def)

section \<open>The claims\<close>

subsection \<open>One tick of the simulation\<close>

text \<open>
  Claim C1. In a playing state (\<open>gameOver\<close> false) whose next head, the current head
  plus the unit offset of the current direction, is strictly inside the walls, on no
  segment of the body and not the food, \<open>step\<close> pushes the next head to the front and
  pops the tail. Nothing else changes: the result is the old state with the new body, so
  score, tick interval, food and direction are the old ones, and the body has its old
  length. The example of the specification (grid 50 by 22, snake at
  \<open>(25,11), (24,11), (23,11)\<close>, heading right) follows the theorem, with one step in each
  of the other three directions.
\<close>

theorem step_moves_forward:
  assumes "\<not> gameOver g" and "snake g = head # rest"
    and "interior g (advance (dir g) head)"
    and "advance (dir g) head \<notin> set (snake g)"
    and "advance (dir g) head \<noteq> food g"
  shows "step g = Some (Inr (g\<lparr>snake := advance (dir g) head # butlast (snake g)\<rparr>))
       \<and> length (advance (dir g) head # butlast (snake g)) = length (snake g)"
  using assms by (simp add: step_playing Let_def step_next_advance)

theorem step_moves_forward_example:
  "step (example_state \<lparr>x = 1, y = 1\<rparr>) =
     Some (Inr ((example_state \<lparr>x = 1, y = 1\<rparr>)
        \<lparr>snake := [\<lparr>x = 26, y = 11\<rparr>, \<lparr>x = 25, y = 11\<rparr>, \<lparr>x = 24, y = 11\<rparr>]\<rparr>))
   \<and> score (example_state \<lparr>x = 1, y = 1\<rparr>) = 0
   \<and> step ((example_state \<lparr>x = 1, y = 1\<rparr>)\<lparr>dir := Up\<rparr>) =
     Some (Inr ((example_state \<lparr>x = 1, y = 1\<rparr>)
        \<lparr>snake := [\<lparr>x = 25, y = 10\<rparr>, \<lparr>x = 25, y = 11\<rparr>, \<lparr>x = 24, y = 11\<rparr>], dir := Up\<rparr>))
   \<and> step ((example_state \<lparr>x = 1, y = 1\<rparr>)\<lparr>dir := Down\<rparr>) =
     Some (Inr ((example_state \<lparr>x = 1, y = 1\<rparr>)
        \<lparr>snake := [\<lparr>x = 25, y = 12\<rparr>, \<lparr>x = 25, y = 11\<rparr>, \<lparr>x = 24, y = 11\<rparr>], dir := Down\<rparr>))
   \<and> step ((example_state \<lparr>x = 1, y = 1\<rparr>)
        \<lparr>snake := [\<lparr>x = 25, y = 11\<rparr>, \<lparr>x = 26, y = 11\<rparr>, \<lparr>x = 27, y = 11\<rparr>], dir := Left\<rparr>) =
     Some (Inr ((example_state \<lparr>x = 1, y = 1\<rparr>)
        \<lparr>snake := [\<lparr>x = 24, y = 11\<rparr>, \<lparr>x = 25, y = 11\<rparr>, \<lparr>x = 26, y = 11\<rparr>], dir := Left\<rparr>))"
  using step_moves_forward [of "example_state \<lparr>x = 1, y = 1\<rparr>" "\<lparr>x = 25, y = 11\<rparr>"
      "[\<lparr>x = 24, y = 11\<rparr>, \<lparr>x = 23, y = 11\<rparr>]"]
    step_moves_forward [of "(example_state \<lparr>x = 1, y = 1\<rparr>)\<lparr>dir := Up\<rparr>" "\<lparr>x = 25, y = 11\<rparr>"
      "[\<lparr>x = 24, y = 11\<rparr>, \<lparr>x = 23, y = 11\<rparr>]"]
    step_moves_forward [of "(example_state \<lparr>x = 1, y = 1\<rparr>)\<lparr>dir := Down\<rparr>" "\<lparr>x = 25, y = 11\<rparr>"
      "[\<lparr>x = 24, y = 11\<rparr>, \<lparr>x = 23, y = 11\<rparr>]"]
    step_moves_forward [of "(example_state \<lparr>x = 1, y = 1\<rparr>)
        \<lparr>snake := [\<lparr>x = 25, y = 11\<rparr>, \<lparr>x = 26, y = 11\<rparr>, \<lparr>x = 27, y = 11\<rparr>], dir := Left\<rparr>"
      "\<lparr>x = 25, y = 11\<rparr>" "[\<lparr>x = 26, y = 11\<rparr>, \<lparr>x = 27, y = 11\<rparr>]"]
  by (simp add: example_state_def advance_def interior_def)

text \<open>
  Claim C2, as amended. Take a playing state whose next head (the current head plus the
  unit offset of the current direction) is inside the walls, on no segment of the body
  and equal to the food, and in which \<open>score + 10\<close> and \<open>tickMs - 2\<close> are in the range of
  \<open>int\<close>. Then every state that \<open>step\<close> returns has the next head pushed and the tail
  not popped (the body grows by exactly one segment), the score increased by exactly 10,
  the tick interval \<open>max 55 (tickMs - 2)\<close>, which is never below 55 whatever the interval
  was, and the food moved to a free interior cell. \<open>step\<close> does not fault. It returns
  exactly when some pass of the loop of \<open>spawnFood\<close> draws a cell off the grown body
  (pass \<open>k\<close> reads the generator \<open>2 * k\<close> draws on), and so never when the grown body
  fills the interior. By \<open>reachable_tick\<close> the interval of a reachable state stays
  between 55 and 110 however much food is eaten. The example of the specification
  follows the theorem: food at \<open>(26,11)\<close>, then length 4, score 10, interval 108.

  Stated for every such state without the condition on the draws, the claim fails on the
  full board that follows the example: the next head is interior, free and the food
  there, and \<open>step\<close> never returns, because \<open>spawnFood\<close> retries for ever.
\<close>

theorem step_eats_food:
  assumes "\<not> gameOver g" and "snake g = head # rest"
    and "interior g (advance (dir g) head)"
    and "advance (dir g) head \<notin> set (snake g)"
    and "advance (dir g) head = food g"
    and "score g + 10 \<le> INT_MAX" and "INT_MIN \<le> tickMs g - 2"
  shows "(\<forall>g'. step g = Some (Inr g') \<longrightarrow>
            snake g' = advance (dir g) head # snake g
            \<and> length (snake g') = length (snake g) + 1
            \<and> score g' = score g + 10
            \<and> tickMs g' = max 55 (tickMs g - 2) \<and> 55 \<le> tickMs g'
            \<and> interior g' (food g') \<and> food g' \<notin> set (snake g') \<and> food g' \<noteq> food g
            \<and> dir g' = dir g \<and> \<not> gameOver g' \<and> quit g' = quit g
            \<and> w g' = w g \<and> h g' = h g)
       \<and> (\<forall>e. step g \<noteq> Some (Inl e))
       \<and> ((\<exists>g'. step g = Some (Inr g')) \<longleftrightarrow>
            (\<exists>k. candidate (w g) (h g) (sdrop (2 * k) (rnd g)) \<notin> set (food g # snake g)))
       \<and> ((\<forall>p. interior g p \<longrightarrow> p \<in> set (food g # snake g)) \<longrightarrow> step g = None)"
proof -
  let ?g1 = "g\<lparr>snake := food g # snake g, score := score g + 10,
                tickMs := max 55 (tickMs g - 2)\<rparr>"
  from assms have st: "step g = spawnFood ?g1"
    by (simp add: step_playing Let_def step_next_advance)
  from assms(3,5) have wh: "3 \<le> w ?g1" "3 \<le> h ?g1"
    by (simp_all add: interior_def)
  have post: "snake g' = advance (dir g) head # snake g
            \<and> length (snake g') = length (snake g) + 1
            \<and> score g' = score g + 10
            \<and> tickMs g' = max 55 (tickMs g - 2) \<and> 55 \<le> tickMs g'
            \<and> interior g' (food g') \<and> food g' \<notin> set (snake g') \<and> food g' \<noteq> food g
            \<and> dir g' = dir g \<and> \<not> gameOver g' \<and> quit g' = quit g
            \<and> w g' = w g \<and> h g' = h g"
    if sp: "spawnFood ?g1 = Some (Inr g')" for g'
    using spawnFood_frame[OF sp] spawnFood_Inr(2,3)[OF sp] assms(1,5)
    by (auto simp add: interior_def)
  have nofault: "spawnFood ?g1 \<noteq> Some (Inl e)" for e
    using wh by (rule spawnFood_no_fault)
  have ret: "(\<exists>g'. spawnFood ?g1 = Some (Inr g')) \<longleftrightarrow>
      (\<exists>k. candidate (w g) (h g) (sdrop (2 * k) (rnd g)) \<notin> set (food g # snake g))"
    using spawnFood_returns_iff[OF wh] by simp
  have full: "spawnFood ?g1 = None" if "\<forall>p. interior g p \<longrightarrow> p \<in> set (food g # snake g)"
    using wh that by (intro spawnFood_diverges) (simp_all add: interior_def)
  from post nofault ret full show ?thesis unfolding st by blast
qed

theorem step_eats_food_example:
  "step (example_state \<lparr>x = 26, y = 11\<rparr>) =
     Some (Inr ((example_state \<lparr>x = 1, y = 1\<rparr>)
       \<lparr>snake := [\<lparr>x = 26, y = 11\<rparr>, \<lparr>x = 25, y = 11\<rparr>, \<lparr>x = 24, y = 11\<rparr>, \<lparr>x = 23, y = 11\<rparr>],
        score := 10, tickMs := 108\<rparr>))
   \<and> length (snake ((example_state \<lparr>x = 1, y = 1\<rparr>)
       \<lparr>snake := [\<lparr>x = 26, y = 11\<rparr>, \<lparr>x = 25, y = 11\<rparr>, \<lparr>x = 24, y = 11\<rparr>, \<lparr>x = 23, y = 11\<rparr>],
        score := 10, tickMs := 108\<rparr>)) = 4"
proof -
  let ?g = "example_state \<lparr>x = 26, y = 11\<rparr>"
  let ?g' = "(example_state \<lparr>x = 1, y = 1\<rparr>)
       \<lparr>snake := [\<lparr>x = 26, y = 11\<rparr>, \<lparr>x = 25, y = 11\<rparr>, \<lparr>x = 24, y = 11\<rparr>, \<lparr>x = 23, y = 11\<rparr>],
        score := 10, tickMs := 108\<rparr>"
  have st: "step ?g = Some (Inr ?g')" by (rule step_eats_example)
  from step_eats_food [of ?g "\<lparr>x = 25, y = 11\<rparr>" "[\<lparr>x = 24, y = 11\<rparr>, \<lparr>x = 23, y = 11\<rparr>]"]
  have "\<forall>g'. step ?g = Some (Inr g') \<longrightarrow> length (snake g') = length (snake ?g) + 1"
    by (simp add: example_state_def advance_def interior_def INT_MAX_def INT_MIN_def)
  with st have "length (snake ?g') = length (snake ?g) + 1" by blast
  then have "length (snake ?g') = 4" by (simp add: example_state_def)
  with st show ?thesis by simp
qed

theorem step_eats_food_full_board:
  "\<not> gameOver full_board
   \<and> snake full_board = \<lparr>x = 2, y = 1\<rparr> # tl (snake full_board)
   \<and> interior full_board (advance (dir full_board) \<lparr>x = 2, y = 1\<rparr>)
   \<and> advance (dir full_board) \<lparr>x = 2, y = 1\<rparr> \<notin> set (snake full_board)
   \<and> advance (dir full_board) \<lparr>x = 2, y = 1\<rparr> = food full_board
   \<and> w full_board = 50 \<and> h full_board = 22
   \<and> length (snake full_board) = 959 \<and> distinct (snake full_board)
   \<and> score full_board = 10 * (959 - 3)
   \<and> step full_board = None"
proof -
  have "snake full_board = \<lparr>x = 2, y = 1\<rparr> # tl (snake full_board)"
    using full_board_snake_head by (simp add: full_board_def)
  moreover have "advance (dir full_board) \<lparr>x = 2, y = 1\<rparr> = \<lparr>x = 1, y = 1\<rparr>"
    by (simp add: full_board_def advance_def)
  moreover have "\<lparr>x = 1, y = 1\<rparr> \<notin> set (snake full_board)"
    by (simp add: full_board_def full_board_snake_set)
  moreover have "interior full_board \<lparr>x = 1, y = 1\<rparr>"
    by (simp add: full_board_def interior_def)
  moreover have "length (snake full_board) = 959" "distinct (snake full_board)"
    by (simp_all add: full_board_def full_board_snake_length full_board_snake_distinct)
  moreover note step_full_board
  ultimately show ?thesis by (simp add: full_board_def)
qed



text \<open>
  Claim C9. In a state with \<open>gameOver\<close> true, \<open>step\<close> returns at once and the state it
  leaves is the state it found: body, food, direction, score, tick interval, \<open>gameOver\<close>
  and \<open>quit\<close> are unchanged.
\<close>

theorem step_gameOver_noop:
  assumes "gameOver g"
  shows "step g = Some (Inr g)"
  using assms by (simp add: step_def)

theorem step_gameOver_noop_example:
  "step ((example_state \<lparr>x = 1, y = 1\<rparr>)\<lparr>gameOver := True\<rparr>) =
     Some (Inr ((example_state \<lparr>x = 1, y = 1\<rparr>)\<lparr>gameOver := True\<rparr>))"
  using step_gameOver_noop [of "(example_state \<lparr>x = 1, y = 1\<rparr>)\<lparr>gameOver := True\<rparr>"]
  by (simp add: example_state_def)

subsection \<open>Keys\<close>

text \<open>
  Claim C4. For a direction key (w, a, s, d in either case) with mapped direction \<open>d\<close>:
  if \<open>d\<close> is the exact opposite of the current direction, \<open>handleInput\<close> leaves the
  direction, and the state, unchanged; otherwise it sets the direction to \<open>d\<close> and
  changes nothing else.
\<close>

theorem handleInput_direction:
  assumes "key_dir c = Some d"
  shows "handleInput c g = Some (Inr (if d = opposite (dir g) then g else g\<lparr>dir := d\<rparr>))"
  by (rule handleInput_turn [OF key_dir_cases [OF assms]])

theorem handleInput_direction_example:
  "handleInput CHR ''A'' (example_state \<lparr>x = 1, y = 1\<rparr>) =
     Some (Inr (example_state \<lparr>x = 1, y = 1\<rparr>))
   \<and> handleInput CHR ''w'' (example_state \<lparr>x = 1, y = 1\<rparr>) =
     Some (Inr ((example_state \<lparr>x = 1, y = 1\<rparr>)\<lparr>dir := Up\<rparr>))"
  using handleInput_direction [of "CHR ''A''" Left "example_state \<lparr>x = 1, y = 1\<rparr>"]
    handleInput_direction [of "CHR ''w''" Up "example_state \<lparr>x = 1, y = 1\<rparr>"]
  by (simp add: key_dir_def example_state_def)

text \<open>
  Claim C5. For the key r or R: when \<open>gameOver\<close> is set, every state that
  \<open>handleInput\<close> returns has the initial body of three segments (head at
  \<open>(w / 2, h / 2)\<close>, two segments to its left), direction \<open>Right\<close>, score 0, tick
  interval 110, \<open>gameOver\<close> and \<open>quit\<close> false, and a fresh food on a free interior
  cell; on a grid with an interior (\<open>w\<close> and \<open>h\<close> at least 3) it does not fault, and
  it returns as soon as a pass of \<open>spawnFood\<close> draws a cell off the initial body. When
  \<open>gameOver\<close> is not set, the key leaves the whole state unchanged.
\<close>

theorem handleInput_restart:
  assumes "c = CHR ''r'' \<or> c = CHR ''R''"
  shows "(gameOver g \<longrightarrow>
            (\<forall>g'. handleInput c g = Some (Inr g') \<longrightarrow>
               snake g' = [\<lparr>x = w g sdiv 2, y = h g sdiv 2\<rparr>,
                           \<lparr>x = w g sdiv 2 - 1, y = h g sdiv 2\<rparr>,
                           \<lparr>x = w g sdiv 2 - 2, y = h g sdiv 2\<rparr>]
               \<and> dir g' = Right \<and> score g' = 0 \<and> tickMs g' = 110
               \<and> \<not> gameOver g' \<and> \<not> quit g' \<and> w g' = w g \<and> h g' = h g
               \<and> interior g' (food g') \<and> food g' \<notin> set (snake g'))
          \<and> (3 \<le> w g \<and> 3 \<le> h g \<longrightarrow> (\<forall>e. handleInput c g \<noteq> Some (Inl e)))
          \<and> (3 \<le> w g \<and> 3 \<le> h g
               \<and> (\<exists>k. candidate (w g) (h g) (sdrop (2 * k) (rnd g))
                         \<notin> set (initial_snake (w g) (h g)))
              \<longrightarrow> (\<exists>g'. handleInput c g = Some (Inr g'))))
       \<and> (\<not> gameOver g \<longrightarrow> handleInput c g = Some (Inr g))"
proof (cases "gameOver g")
  case False
  then show ?thesis by (simp add: handleInput_restart_key[OF assms])
next
  case True
  then have hi: "handleInput c g = reset g" by (simp add: handleInput_restart_key[OF assms])
  have a: "snake g' = [\<lparr>x = w g sdiv 2, y = h g sdiv 2\<rparr>,
                           \<lparr>x = w g sdiv 2 - 1, y = h g sdiv 2\<rparr>,
                           \<lparr>x = w g sdiv 2 - 2, y = h g sdiv 2\<rparr>]
               \<and> dir g' = Right \<and> score g' = 0 \<and> tickMs g' = 110
               \<and> \<not> gameOver g' \<and> \<not> quit g' \<and> w g' = w g \<and> h g' = h g
               \<and> interior g' (food g') \<and> food g' \<notin> set (snake g')"
    if r: "reset g = Some (Inr g')" for g'
    using reset_fields[OF r] reset_Inr(2,3)[OF r]
    by (simp add: interior_def) (simp add: initial_snake_def)
  have b: "reset g \<noteq> Some (Inl e)" if "3 \<le> w g" "3 \<le> h g" for e
    using that by (rule reset_no_fault)
  have c: "\<exists>g'. reset g = Some (Inr g')"
    if "3 \<le> w g" "3 \<le> h g"
      "candidate (w g) (h g) (sdrop (2 * k) (rnd g)) \<notin> set (initial_snake (w g) (h g))" for k
    using that by (rule reset_returns)
  from True a b c show ?thesis unfolding hi by blast
qed

theorem handleInput_restart_example:
  "handleInput CHR ''r'' ((example_state \<lparr>x = 7, y = 7\<rparr>)
       \<lparr>snake := [\<lparr>x = 48, y = 3\<rparr>, \<lparr>x = 47, y = 3\<rparr>, \<lparr>x = 46, y = 3\<rparr>, \<lparr>x = 45, y = 3\<rparr>],
        dir := Right, gameOver := True, score := 10, tickMs := 108\<rparr>)
     = Some (Inr (example_state \<lparr>x = 1, y = 1\<rparr>))
   \<and> snake (example_state \<lparr>x = 1, y = 1\<rparr>) = [\<lparr>x = 25, y = 11\<rparr>, \<lparr>x = 24, y = 11\<rparr>, \<lparr>x = 23, y = 11\<rparr>]
   \<and> handleInput CHR ''R'' (example_state \<lparr>x = 7, y = 7\<rparr>) = Some (Inr (example_state \<lparr>x = 7, y = 7\<rparr>))"
proof -
  let ?g = "(example_state \<lparr>x = 7, y = 7\<rparr>)
       \<lparr>snake := [\<lparr>x = 48, y = 3\<rparr>, \<lparr>x = 47, y = 3\<rparr>, \<lparr>x = 46, y = 3\<rparr>, \<lparr>x = 45, y = 3\<rparr>],
        dir := Right, gameOver := True, score := 10, tickMs := 108\<rparr>"
  have r: "reset ?g = Some (Inr (example_state \<lparr>x = 1, y = 1\<rparr>))"
    unfolding reset_def
    by (subst spawnFood.simps) (simp add: example_state_def nextInt_def Vec2_eq_def)
  then have hi: "handleInput CHR ''r'' ?g = Some (Inr (example_state \<lparr>x = 1, y = 1\<rparr>))"
    by (simp add: handleInput_def example_state_def)
  from handleInput_restart [of "CHR ''r''" ?g] hi
  have "snake (example_state \<lparr>x = 1, y = 1\<rparr>) = [\<lparr>x = 25, y = 11\<rparr>, \<lparr>x = 24, y = 11\<rparr>, \<lparr>x = 23, y = 11\<rparr>]"
    by (simp add: example_state_def)
  moreover from handleInput_restart [of "CHR ''R''" "example_state \<lparr>x = 7, y = 7\<rparr>"]
  have "handleInput CHR ''R'' (example_state \<lparr>x = 7, y = 7\<rparr>) = Some (Inr (example_state \<lparr>x = 7, y = 7\<rparr>))"
    by (simp add: example_state_def)
  ultimately show ?thesis using hi by simp
qed

subsection \<open>Food\<close>

text \<open>
  Claim C6. Whenever \<open>spawnFood\<close> returns, the food it has assigned is an interior cell
  (\<open>1 \<le> x \<le> w - 2\<close> and \<open>1 \<le> y \<le> h - 2\<close>) and equals no segment of the snake.
  (Lemma \<open>spawnFood_returns_iff\<close> shows that it returns exactly when a pass draws a free
  cell, and \<open>spawnFood_diverges\<close> that it never returns when the snake covers the
  interior.)
\<close>

theorem spawnFood_free_interior_cell:
  assumes "spawnFood g = Some (Inr g')"
  shows "interior g' (food g') \<and> food g' \<notin> set (snake g')"
  using spawnFood_Inr(2,3)[OF assms] spawnFood_frame(1,2,3)[OF assms]
  by (simp add: interior_def)

theorem spawnFood_free_interior_cell_example:
  "spawnFood (example_state \<lparr>x = 26, y = 11\<rparr>) =
     Some (Inr ((example_state \<lparr>x = 26, y = 11\<rparr>)\<lparr>food := \<lparr>x = 1, y = 1\<rparr>\<rparr>))
   \<and> interior ((example_state \<lparr>x = 26, y = 11\<rparr>)\<lparr>food := \<lparr>x = 1, y = 1\<rparr>\<rparr>) \<lparr>x = 1, y = 1\<rparr>
   \<and> \<lparr>x = 1, y = 1\<rparr> \<notin> set (snake (example_state \<lparr>x = 26, y = 11\<rparr>))"
  using spawnFood_free_interior_cell [OF spawnFood_example [of "\<lparr>x = 26, y = 11\<rparr>"]]
    spawnFood_example [of "\<lparr>x = 26, y = 11\<rparr>"]
  by (simp add: example_state_def)

subsection \<open>Reachable states\<close>

text \<open>
  Claim C7. In every state reached from the constructor's state by calls of \<open>step\<close>
  and \<open>handleInput\<close>, on a grid at least 6 wide and 3 high (the program's is 50 by 22),
  the food and every segment of the snake are strictly inside the walls
  (\<open>1 \<le> x \<le> w - 2\<close> and \<open>1 \<le> y \<le> h - 2\<close>), so every write of \<open>buildBuffer\<close> at
  the food's or a segment's position is inside the \<open>h\<close> by \<open>w\<close> buffer; indeed
  \<open>buildBuffer\<close> as a whole returns a buffer. The step case of the invariant
  (\<open>step_inside\<close>) rests on the collision test that precedes the push: the pushed head
  is interior because \<open>hitWall\<close> was false for it.
\<close>

theorem reachable_inside_walls:
  assumes "reachable W H g" "6 \<le> W" "3 \<le> H"
  shows "(\<forall>p\<in>set (food g # snake g).
            1 \<le> x p \<and> x p \<le> w g - 2 \<and> 1 \<le> y p \<and> y p \<le> h g - 2)
       \<and> list_all (in_buffer g) (food_writes g @ snake_writes g)
       \<and> (\<exists>buf. buildBuffer g = Inr buf)"
proof -
  have iw: "inside_walls g" using assms by (rule reachable_inside)
  then have "\<forall>p\<in>set (food g # snake g). interior g p"
    by (simp add: inside_walls_def list_all_iff)
  then have "\<forall>p\<in>set (food g # snake g).
            1 \<le> x p \<and> x p \<le> w g - 2 \<and> 1 \<le> y p \<and> y p \<le> h g - 2"
    by (simp add: interior_def)
  moreover from food_writes_in_buffer[OF iw] snake_writes_in_buffer[OF iw]
  have "list_all (in_buffer g) (food_writes g @ snake_writes g)" by simp
  moreover note inside_walls_buildBuffer[OF iw]
  ultimately show ?thesis by blast
qed

theorem reachable_inside_walls_example:
  "reachable 50 22 (example_state \<lparr>x = 1, y = 1\<rparr>)
   \<and> list_all (interior (example_state \<lparr>x = 1, y = 1\<rparr>))
         (food (example_state \<lparr>x = 1, y = 1\<rparr>) # snake (example_state \<lparr>x = 1, y = 1\<rparr>))
   \<and> list_all (in_buffer (example_state \<lparr>x = 1, y = 1\<rparr>))
         (food_writes (example_state \<lparr>x = 1, y = 1\<rparr>)
          @ snake_writes (example_state \<lparr>x = 1, y = 1\<rparr>))
   \<and> (\<exists>buf. buildBuffer (example_state \<lparr>x = 1, y = 1\<rparr>) = Inr buf)"
  using reachable_inside_walls [OF reachable_example] reachable_example
  by (simp add: list_all_iff interior_def)

text \<open>
  Claim C8. In every reachable state the positions of the snake are pairwise distinct
  (whether or not \<open>gameOver\<close> is set: a collision leaves the body as it was), and
  every call of \<open>step\<close> or \<open>handleInput\<close> that returns keeps a body of distinct
  positions distinct.
\<close>

theorem snake_distinct:
  "(reachable W H g \<longrightarrow> distinct (snake g))
   \<and> (distinct (snake g0) \<and> step g0 = Some (Inr g1) \<longrightarrow> distinct (snake g1))
   \<and> (distinct (snake g0) \<and> handleInput c g0 = Some (Inr g2) \<longrightarrow> distinct (snake g2))"
  using reachable_distinct step_distinct handleInput_distinct by blast

theorem snake_distinct_example:
  "reachable 50 22 (example_state \<lparr>x = 1, y = 1\<rparr>)
   \<and> distinct (snake (example_state \<lparr>x = 1, y = 1\<rparr>))
   \<and> distinct [\<lparr>x = 26, y = 11\<rparr>, \<lparr>x = 25, y = 11\<rparr>, \<lparr>x = (24::int), y = (11::int)\<rparr>]"
proof -
  let ?g = "example_state \<lparr>x = 1, y = 1\<rparr>"
  let ?g' = "?g\<lparr>snake := [\<lparr>x = 26, y = 11\<rparr>, \<lparr>x = 25, y = 11\<rparr>, \<lparr>x = 24, y = 11\<rparr>]\<rparr>"
  note th = snake_distinct [of 50 22 ?g ?g ?g' "CHR ''w''" ?g]
  from th reachable_example have d: "distinct (snake ?g)" by blast
  with th step_example have "distinct (snake ?g')" by blast
  with d reachable_example show ?thesis by simp
qed

text \<open>
  Claim C10. In every reachable state the score is 10 times (length of the body minus 3).
  The witness is the state after the first food: the constructor drew the food at
  \<open>(26,11)\<close>, one step ate it, the body has 4 segments and the score is 10.
\<close>

theorem score_tracks_length:
  assumes "reachable W H g"
  shows "score g = 10 * (int (length (snake g)) - 3)"
  using reachable_score [OF assms] by simp

theorem score_tracks_length_example:
  "reachable 50 22 ((example_state \<lparr>x = 1, y = 1\<rparr>)
       \<lparr>snake := [\<lparr>x = 26, y = 11\<rparr>, \<lparr>x = 25, y = 11\<rparr>, \<lparr>x = 24, y = 11\<rparr>, \<lparr>x = 23, y = 11\<rparr>],
        score := 10, tickMs := 108\<rparr>)
   \<and> score ((example_state \<lparr>x = 1, y = 1\<rparr>)
       \<lparr>snake := [\<lparr>x = 26, y = 11\<rparr>, \<lparr>x = 25, y = 11\<rparr>, \<lparr>x = 24, y = 11\<rparr>, \<lparr>x = 23, y = 11\<rparr>],
        score := 10, tickMs := 108\<rparr>) = 10 * (4 - 3)"
proof -
  let ?g = "example_state \<lparr>x = 26, y = 11\<rparr>"
  let ?g' = "(example_state \<lparr>x = 1, y = 1\<rparr>)
       \<lparr>snake := [\<lparr>x = 26, y = 11\<rparr>, \<lparr>x = 25, y = 11\<rparr>, \<lparr>x = 24, y = 11\<rparr>, \<lparr>x = 23, y = 11\<rparr>],
        score := 10, tickMs := 108\<rparr>"
  have "Game_new 50 22 (25 ## 10 ## sconst 0) = Some (Inr ?g)"
    unfolding Game_new_def reset_def
    by (subst spawnFood.simps) (simp add: example_state_def nextInt_def Vec2_eq_def)
  then have "reachable 50 22 ?g" by (rule reachable.init)
  moreover have "step ?g = Some (Inr ?g')" by (rule step_eats_example)
  ultimately have r: "reachable 50 22 ?g'" by (rule reachable.tick)
  from score_tracks_length [OF r] have "score ?g' = 10 * (int (length (snake ?g')) - 3)" .
  then have "score ?g' = 10 * (4 - 3)" by (simp add: example_state_def)
  with r show ?thesis by simp
qed

end
